theory Spec2Isabelle
  imports Main
begin

unbundle bit_operations_syntax

section \<open>bullsat: a CDCL SAT solver (src/bullsat.hpp)\<close>

subsection \<open>Literals and clauses\<close>

text \<open>
  \<^verbatim>\<open>enum class Status\<close> and \<^verbatim>\<open>enum class LitBool\<close>. The constructors of
  \<^verbatim>\<open>LitBool\<close> carry the enum's name, since \<open>True\<close> and \<open>False\<close> are HOL's.
\<close>

datatype Status = Sat | Unsat | Unknown

datatype LitBool = LitBool_True | LitBool_False | LitBool_Undefine

text \<open>
  \<^verbatim>\<open>struct Lit { int x; }\<close>: \<open>x = 2 * v\<close> is the positive literal of variable \<open>v\<close>,
  \<open>x = 2 * v + 1\<close> the negative one. The constructor asserts \<open>v >= 0\<close>, so the encoding
  of a constructed literal is a natural number; it is modelled as \<open>nat\<close> (no claim depends
  on the 32-bit range of \<^verbatim>\<open>int\<close>). A clause is a \<^verbatim>\<open>std::vector<Lit>\<close>, a clause handle
  (\<^verbatim>\<open>std::shared_ptr<Clause>\<close>) is an address of the store \<open>heap\<close> below.
\<close>

type_synonym Var = nat
type_synonym Lit = nat
type_synonym Clause = "Lit list"
type_synonym CRef = nat

definition Lit :: "Var \<Rightarrow> bool \<Rightarrow> Lit" where
  "Lit v positive = (if positive then 2 * v else 2 * v + 1)"

definition neg :: "Lit \<Rightarrow> bool" where
  "neg l = (l AND 1 \<noteq> 0)"

definition pos :: "Lit \<Rightarrow> bool" where
  "pos l = (\<not> neg l)"

definition var :: "Lit \<Rightarrow> Var" where
  "var l = drop_bit 1 l"

definition vidx :: "Lit \<Rightarrow> nat" where
  "vidx l = var l"

definition lidx :: "Lit \<Rightarrow> nat" where
  "lidx l = l"

text \<open>\<^verbatim>\<open>operator~\<close>: \<^verbatim>\<open>q.x ^= 1\<close> flips the lowest bit.\<close>

definition lit_not :: "Lit \<Rightarrow> Lit" where
  "lit_not p = p XOR 1"

subsection \<open>Failures\<close>

text \<open>
  A failed \<^verbatim>\<open>assert\<close> aborts the program; it is the error \<open>Assertion_failed\<close> with the
  asserted expression. An index outside a vector or the deque is undefined behaviour in
  C++; the model stops there with \<open>Out_of_range\<close>, so that a run of the model that returns
  \<open>Inr\<close> never read or wrote outside a container. \<^verbatim>\<open>optional::value()\<close> on an empty
  optional throws; that is \<open>Bad_optional_access\<close>.
\<close>

datatype error = Assertion_failed string | Out_of_range | Bad_optional_access

definition ebind :: "error + 'a \<Rightarrow> ('a \<Rightarrow> error + 'b) \<Rightarrow> error + 'b" where
  "ebind m f = (case m of Inl e \<Rightarrow> Inl e | Inr x \<Rightarrow> f x)"

subsection \<open>The solver state\<close>

text \<open>
  The fields of \<^verbatim>\<open>class Solver\<close>, with their names (\<^verbatim>\<open>assings\<close> is the source's
  spelling). \<open>heap\<close> is the store of the shared clauses: \<^verbatim>\<open>std::make_shared<Clause>\<close>
  appends a cell, a handle is the cell's index, and a swap inside a clause is seen through
  every handle to it (the clause lists, the watcher lists and the reasons).
\<close>

record solver =
  assings :: "bool list"
  status :: "Status option"
  clauses :: "CRef list"
  learnts :: "CRef list"
  watchers :: "CRef list list"
  reasons :: "CRef option list"
  levels :: "int option list"
  que :: "Lit list"
  que_head :: nat
  heap :: "Clause list"

definition Solver :: "nat \<Rightarrow> solver" where
  "Solver variable_num =
     \<lparr>assings = replicate variable_num False, status = None, clauses = [], learnts = [],
      watchers = replicate (2 * variable_num) [], reasons = replicate variable_num None,
      levels = replicate variable_num None, que = [], que_head = 0, heap = []\<rparr>"

subsection \<open>The assignment trail\<close>

definition eval_lit :: "Lit \<Rightarrow> solver \<Rightarrow> error + LitBool" where
  "eval_lit lit s =
     (if \<not> vidx lit < length (levels s) then Inl Out_of_range
      else if levels s ! vidx lit = None then Inr LitBool_Undefine
      else if \<not> vidx lit < length (assings s) then Inl Out_of_range
      else if neg lit then Inr (if assings s ! vidx lit then LitBool_False else LitBool_True)
      else Inr (if assings s ! vidx lit then LitBool_True else LitBool_False))"

definition decision_level :: "solver \<Rightarrow> error + int" where
  "decision_level s =
     (if que s = [] then Inr 0
      else let l = last (que s) in
        if \<not> vidx l < length (levels s) then Inl Out_of_range
        else Inr (case levels s ! vidx l of None \<Rightarrow> 0 | Some d \<Rightarrow> d))"

definition enqueue :: "Lit \<Rightarrow> CRef option \<Rightarrow> solver \<Rightarrow> error + solver" where
  "enqueue lit reason s =
     (if \<not> vidx lit < length (levels s) then Inl Out_of_range
      else if levels s ! vidx lit \<noteq> None
        then Inl (Assertion_failed ''!levels[lit.vidx()].has_value()'')
      else ebind (decision_level s) (\<lambda>d.
        if \<not> (vidx lit < length (assings s) \<and> vidx lit < length (reasons s))
          then Inl Out_of_range
        else Inr (s\<lparr>levels := (levels s)[vidx lit := Some d],
                    assings := (assings s)[vidx lit := pos lit],
                    reasons := (reasons s)[vidx lit := reason],
                    que := que s @ [lit]\<rparr>)))"

text \<open>
  \<^verbatim>\<open>enqueue\<close> as it is compiled with \<^verbatim>\<open>NDEBUG\<close>: the assertion is not evaluated,
  the rest of the body is the same.
\<close>

definition enqueue_unchecked :: "Lit \<Rightarrow> CRef option \<Rightarrow> solver \<Rightarrow> error + solver" where
  "enqueue_unchecked lit reason s =
     (if \<not> vidx lit < length (levels s) then Inl Out_of_range
      else ebind (decision_level s) (\<lambda>d.
        if \<not> (vidx lit < length (assings s) \<and> vidx lit < length (reasons s))
          then Inl Out_of_range
        else Inr (s\<lparr>levels := (levels s)[vidx lit := Some d],
                    assings := (assings s)[vidx lit := pos lit],
                    reasons := (reasons s)[vidx lit := reason],
                    que := que s @ [lit]\<rparr>)))"

definition new_decision :: "Lit \<Rightarrow> CRef option \<Rightarrow> solver \<Rightarrow> error + solver" where
  "new_decision lit reason s =
     ebind (enqueue lit reason s) (\<lambda>s1.
       if \<not> vidx lit < length (levels s1) then Inl Out_of_range
       else case levels s1 ! vidx lit of
           None \<Rightarrow> Inl Bad_optional_access
         | Some d \<Rightarrow> Inr (s1\<lparr>levels := (levels s1)[vidx lit := Some (d + 1)]\<rparr>))"

text \<open>
  \<^verbatim>\<open>levels[lit.vidx()] > until_level\<close> compares a \<^verbatim>\<open>std::optional<int>\<close> with an
  \<^verbatim>\<open>int\<close>: an empty optional is greater than nothing.
\<close>

definition opt_gt :: "int option \<Rightarrow> int \<Rightarrow> bool" where
  "opt_gt a b = (case a of None \<Rightarrow> False | Some x \<Rightarrow> x > b)"

text \<open>The \<^verbatim>\<open>while\<close> loop of \<^verbatim>\<open>pop_queue_until\<close>.\<close>

function pop_loop :: "int \<Rightarrow> solver \<Rightarrow> error + solver" where
  "pop_loop until_level s =
     (if que s = [] then Inr s
      else let lit = last (que s) in
        if \<not> vidx lit < length (levels s) then Inl Out_of_range
        else if opt_gt (levels s ! vidx lit) until_level then
          (if \<not> vidx lit < length (reasons s) then Inl Out_of_range
           else pop_loop until_level
                  (s\<lparr>reasons := (reasons s)[vidx lit := None],
                     levels := (levels s)[vidx lit := None],
                     que := butlast (que s)\<rparr>))
        else Inr s)"
  by pat_completeness auto
termination
  by (relation "measure (\<lambda>(u, s). length (que s))") auto

definition pop_queue_until :: "int \<Rightarrow> solver \<Rightarrow> error + solver" where
  "pop_queue_until until_level s =
     (if que s = [] then Inl (Assertion_failed ''!que.empty()'')
      else ebind (pop_loop until_level s) (\<lambda>s1.
        Inr (s1\<lparr>que_head := (if length (que s1) > 0 then length (que s1) - 1 else 0)\<rparr>)))"

subsection \<open>Variables and clause attachment\<close>

definition new_var :: "solver \<Rightarrow> solver" where
  "new_var s =
     s\<lparr>watchers := watchers s @ [[], []],
       assings := assings s @ [False],
       reasons := reasons s @ [None],
       levels := levels s @ [None]\<rparr>"

text \<open>\<^verbatim>\<open>watchers[l.lidx()].push_back(cr)\<close>.\<close>

definition push_watch :: "Lit \<Rightarrow> CRef \<Rightarrow> solver \<Rightarrow> error + solver" where
  "push_watch l cr s =
     (if \<not> lidx l < length (watchers s) then Inl Out_of_range
      else Inr (s\<lparr>watchers := (watchers s)[lidx l := watchers s ! lidx l @ [cr]]\<rparr>))"

definition attach_clause :: "CRef \<Rightarrow> bool \<Rightarrow> solver \<Rightarrow> error + solver" where
  "attach_clause cr learnt s =
     (if \<not> cr < length (heap s) then Inl Out_of_range
      else let clause = heap s ! cr in
        if \<not> length clause > 1 then Inl (Assertion_failed ''clause.size() > 1'')
        else ebind (push_watch (lit_not (clause ! 0)) cr s) (\<lambda>s1.
             ebind (push_watch (lit_not (clause ! 1)) cr s1) (\<lambda>s2.
               Inr (if learnt
                    then s2\<lparr>clauses := clauses s2 @ [cr], learnts := learnts s2 @ [cr]\<rparr>
                    else s2\<lparr>clauses := clauses s2 @ [cr]\<rparr>))))"

text \<open>The \<^verbatim>\<open>std::for_each\<close> at the head of \<^verbatim>\<open>add_clause\<close>.\<close>

definition grow :: "Clause \<Rightarrow> solver \<Rightarrow> solver" where
  "grow clause s =
     fold (\<lambda>lit s. if vidx lit \<ge> length (assings s) then new_var s else s) clause s"

definition make_shared :: "Clause \<Rightarrow> solver \<Rightarrow> CRef \<times> solver" where
  "make_shared clause s = (length (heap s), s\<lparr>heap := heap s @ [clause]\<rparr>)"

definition add_clause :: "Clause \<Rightarrow> solver \<Rightarrow> error + solver" where
  "add_clause clause s =
     (let s1 = grow clause s in
      if length clause = 1 then enqueue (clause ! 0) None s1
      else case make_shared clause s1 of (cr, s2) \<Rightarrow> attach_clause cr False s2)"

subsection \<open>Propagation\<close>

text \<open>\<^verbatim>\<open>std::swap(clause[i], clause[j])\<close>.\<close>

definition swap_elems :: "nat \<Rightarrow> nat \<Rightarrow> 'a list \<Rightarrow> 'a list" where
  "swap_elems i j xs = xs[i := xs ! j, j := xs ! i]"

text \<open>
  The search \<^verbatim>\<open>for (size_t k = 2; k < clause.size(); k++)\<close> for a literal that is not
  False: the first argument is the rest of the clause from position \<open>k\<close> on, the result
  is the position found.
\<close>

fun find_watch :: "Lit list \<Rightarrow> nat \<Rightarrow> solver \<Rightarrow> error + nat option" where
  "find_watch [] k s = Inr None"
| "find_watch (c # cs) k s =
     ebind (eval_lit c s) (\<lambda>e.
       if e \<noteq> LitBool_False then Inr (Some k) else find_watch cs (k + 1) s)"

text \<open>
  One pass of the body of the loop over a watcher list, for the clause at slot \<open>i\<close> of
  the list of \<open>lit\<close>; the caller has checked that the slot exists. The result is the next
  value of \<open>i\<close>, or the conflicting clause. The body is cut in three: \<open>normalize_watch\<close>
  is the swap that brings \<open>nlit\<close> to position 1, \<open>move_watch\<close> the replacement of the
  watch (the in-clause swap, the swap-pop removal from the current list, the new watch),
  \<open>examine\<close> the four outcomes. Between the three calls of \<^verbatim>\<open>eval(first)\<close> of the
  source nothing is assigned, so \<open>examine\<close> evaluates it once.
\<close>

datatype visit_result = Next_clause nat | Conflict CRef

definition normalize_watch :: "Lit \<Rightarrow> CRef \<Rightarrow> solver \<Rightarrow> solver" where
  "normalize_watch nlit cr s =
     (if heap s ! cr ! 0 = nlit
      then s\<lparr>heap := (heap s)[cr := swap_elems 0 1 (heap s ! cr)]\<rparr> else s)"

definition move_watch :: "Lit \<Rightarrow> nat \<Rightarrow> CRef \<Rightarrow> nat \<Rightarrow> solver \<Rightarrow> error + solver" where
  "move_watch lit i cr k s =
     (let s2 = s\<lparr>heap := (heap s)[cr := swap_elems 1 k (heap s ! cr)]\<rparr>;
          watcher = watchers s2 ! lidx lit;
          s3 = s2\<lparr>watchers := (watchers s2)[lidx lit := butlast (watcher[i := last watcher])]\<rparr>
      in push_watch (lit_not (heap s3 ! cr ! 1)) cr s3)"

definition examine :: "Lit \<Rightarrow> nat \<Rightarrow> CRef \<Rightarrow> solver \<Rightarrow> error + (visit_result \<times> solver)" where
  "examine lit i cr s =
     (let clause = heap s ! cr; first = clause ! 0 in
      ebind (eval_lit first s) (\<lambda>e0.
        if e0 = LitBool_True then Inr (Next_clause (i + 1), s)
        else ebind (find_watch (drop 2 clause) 2 s) (\<lambda>found.
          case found of
            Some k \<Rightarrow> ebind (move_watch lit i cr k s) (\<lambda>s'. Inr (Next_clause i, s'))
          | None \<Rightarrow>
              if e0 = LitBool_False then Inr (Conflict cr, s\<lparr>que_head := length (que s)\<rparr>)
              else if e0 \<noteq> LitBool_Undefine
                then Inl (Assertion_failed ''eval(first) == LitBool::Undefine'')
              else ebind (enqueue first (Some cr) s) (\<lambda>s'. Inr (Next_clause (i + 1), s')))))"

definition visit :: "Lit \<Rightarrow> nat \<Rightarrow> solver \<Rightarrow> error + (visit_result \<times> solver)" where
  "visit lit i s =
     (let nlit = lit_not lit; cr = watchers s ! lidx lit ! i in
      if \<not> cr < length (heap s) then Inl Out_of_range
      else if \<not> 1 < length (heap s ! cr) then Inl Out_of_range
      else if \<not> (heap s ! cr ! 0 = nlit \<or> heap s ! cr ! 1 = nlit)
        then Inl (Assertion_failed ''clause[0] == nlit || clause[1] == nlit'')
      else let s1 = normalize_watch nlit cr s in
        if heap s1 ! cr ! 1 \<noteq> nlit
          then Inl (Assertion_failed ''clause[1] == nlit && eval(clause[1]) == LitBool::False'')
        else ebind (eval_lit (heap s1 ! cr ! 1) s1) (\<lambda>e1.
          if e1 \<noteq> LitBool_False
            then Inl (Assertion_failed ''clause[1] == nlit && eval(clause[1]) == LitBool::False'')
          else examine lit i cr s1))"

subsection \<open>Termination of propagation\<close>

lemma ebind_Inr_iff: "ebind m f = Inr y \<longleftrightarrow> (\<exists>x. m = Inr x \<and> f x = Inr y)"
  by (cases m) (auto simp: ebind_def)
lemma ebind_simps [simp]: "ebind (Inr x) f = f x" "ebind (Inl e) f = Inl e"
  by (auto simp: ebind_def)

lemma lit_not_alt: "lit_not p = (if even p then p + 1 else p - 1)"
  unfolding lit_not_def by (auto simp: xor_Suc_0_eq)
lemma lit_not_invol [simp]: "lit_not (lit_not p) = p"
  by (auto simp: lit_not_alt)
lemma lit_not_inj [simp]: "lit_not p = lit_not q \<longleftrightarrow> p = q"
  by (metis lit_not_invol)

lemma enqueue_watchers: "enqueue l r s = Inr s' \<Longrightarrow> watchers s' = watchers s"
  by (auto simp: enqueue_def ebind_Inr_iff split: if_splits)

lemma find_watch_Some:
  "find_watch cs k s = Inr (Some j) \<Longrightarrow>
   \<exists>n e. j = k + n \<and> n < length cs \<and> eval_lit (cs ! n) s = Inr e \<and> e \<noteq> LitBool_False"
proof (induction cs arbitrary: k)
  case Nil then show ?case by simp
next
  case (Cons c cs)
  from Cons.prems obtain e where e: "eval_lit c s = Inr e" 
     and r: "(if e \<noteq> LitBool_False then Inr (Some k) else find_watch cs (k + 1) s) = Inr (Some j)"
    by (auto simp: ebind_Inr_iff)
  show ?case
  proof (cases "e = LitBool_False")
    case True
    with r have "find_watch cs (k + 1) s = Inr (Some j)" by simp
    from Cons.IH[OF this] obtain n e' where "j = k + 1 + n" "n < length cs"
      "eval_lit (cs ! n) s = Inr e'" "e' \<noteq> LitBool_False" by blast
    then have "j = k + Suc n \<and> Suc n < length (c # cs) \<and> eval_lit ((c # cs) ! Suc n) s = Inr e' \<and> e' \<noteq> LitBool_False"
      by simp
    then show ?thesis by blast
  next
    case False
    with r e have "j = k + 0 \<and> 0 < length (c # cs) \<and> eval_lit ((c # cs) ! 0) s = Inr e \<and> e \<noteq> LitBool_False" by simp
    then show ?thesis by blast
  qed
qed

lemma find_watch_None:
  "find_watch cs k s = Inr None \<Longrightarrow> \<forall>c \<in> set cs. eval_lit c s = Inr LitBool_False"
  by (induction cs arbitrary: k) (auto simp: ebind_Inr_iff split: if_splits)

lemma find_watch_drop2:
  assumes "find_watch (drop 2 c) 2 s = Inr (Some k)"
  shows "2 \<le> k \<and> k < length c \<and> eval_lit (c ! k) s \<noteq> Inr LitBool_False"
proof -
  from find_watch_Some[OF assms] obtain n e where n: "k = 2 + n" "n < length (drop 2 c)"
    "eval_lit (drop 2 c ! n) s = Inr e" "e \<noteq> LitBool_False" by blast
  from n(2) have "2 + n < length c" by simp
  moreover from this have "drop 2 c ! n = c ! (2 + n)" by simp
  ultimately show ?thesis using n by auto
qed

lemma eval_lit_heap [simp]: "eval_lit l (s\<lparr>heap := h\<rparr>) = eval_lit l s"
  by (simp add: eval_lit_def)

lemma normalize_watch_fields [simp]:
  "watchers (normalize_watch n cr s) = watchers s"
  "levels (normalize_watch n cr s) = levels s"
  "assings (normalize_watch n cr s) = assings s"
  "reasons (normalize_watch n cr s) = reasons s"
  "que (normalize_watch n cr s) = que s"
  "que_head (normalize_watch n cr s) = que_head s"
  "clauses (normalize_watch n cr s) = clauses s"
  "learnts (normalize_watch n cr s) = learnts s"
  "length (heap (normalize_watch n cr s)) = length (heap s)"
  by (simp_all add: normalize_watch_def)

lemma eval_lit_normalize [simp]: "eval_lit l (normalize_watch n cr s) = eval_lit l s"
  by (simp add: eval_lit_def)

lemma swap_elems_length [simp]: "length (swap_elems i j xs) = length xs"
  by (simp add: swap_elems_def)
lemma swap_elems_nth:
  "i < length xs \<Longrightarrow> j < length xs \<Longrightarrow>
   swap_elems i j xs ! n = (if n = j then xs ! i else if n = i then xs ! j else xs ! n)"
  by (auto simp: swap_elems_def nth_list_update)

lemma move_watch_len:
  assumes "move_watch lit i cr k s = Inr s'" "lidx lit < length (watchers s)" "i < length (watchers s ! lidx lit)"
   "cr < length (heap s)"  "lit_not (heap s ! cr ! k) \<noteq> lit" "1 < length (heap s ! cr)" "k < length (heap s ! cr)" "2 \<le> k"
  shows "length (watchers s') = length (watchers s) \<and> length (watchers s' ! lidx lit) = length (watchers s ! lidx lit) - 1"
proof -
  have "swap_elems 1 k (heap s ! cr) ! 1 = heap s ! cr ! k"
    using assms by (simp add: swap_elems_nth)
  with assms show ?thesis
    by (auto simp: move_watch_def push_watch_def Let_def lidx_def split: if_splits)
qed

lemma examine_measure:
  assumes "examine lit i cr s = Inr (Next_clause i', s')" "lidx lit < length (watchers s)" "i < length (watchers s ! lidx lit)"
    "cr < length (heap s)" "1 < length (heap s ! cr)" "eval_lit (lit_not lit) s = Inr LitBool_False"
  shows "length (watchers s') = length (watchers s) \<and> length (watchers s' ! lidx lit) - i' < length (watchers s ! lidx lit) - i"
proof -
  from assms(1) obtain e0 where e0: "eval_lit (heap s ! cr ! 0) s = Inr e0"
    by (auto simp: examine_def Let_def ebind_Inr_iff)
  show ?thesis
  proof (cases "e0 = LitBool_True")
    case True
    with assms e0 show ?thesis by (auto simp: examine_def Let_def)
  next
    case False
    with assms(1) e0 obtain found where f: "find_watch (drop 2 (heap s ! cr)) 2 s = Inr found"
      by (auto simp: examine_def Let_def ebind_Inr_iff)
    show ?thesis
    proof (cases found)
      case None
      with assms(1) e0 False f obtain "enqueue (heap s ! cr ! 0) (Some cr) s = Inr s'" "i' = i + 1"
        by (auto simp: examine_def Let_def ebind_Inr_iff split: if_splits)
      with assms show ?thesis by (auto dest: enqueue_watchers)
    next
      case (Some k)
      with assms(1) e0 False f have mv: "move_watch lit i cr k s = Inr s'" and i': "i' = i"
        by (auto simp: examine_def Let_def ebind_Inr_iff split: if_splits)
      from find_watch_drop2[OF f[unfolded Some]] have k: "2 \<le> k" "k < length (heap s ! cr)"
        and ev: "eval_lit (heap s ! cr ! k) s \<noteq> Inr LitBool_False" by auto
      with ev assms(6) have "heap s ! cr ! k \<noteq> lit_not lit" by auto
      then have "lit_not (heap s ! cr ! k) \<noteq> lit" by (metis lit_not_invol)
      from move_watch_len[OF mv assms(2,3,4) this assms(5) k(2,1)] assms(3) i' show ?thesis by auto
    qed
  qed
qed

lemma visit_measure:
  assumes "visit lit i s = Inr (Next_clause i', s')" "lidx lit < length (watchers s)" "i < length (watchers s ! lidx lit)"
  shows "length (watchers s') = length (watchers s) \<and> length (watchers s' ! lidx lit) - i' < length (watchers s ! lidx lit) - i"
proof -
  define cr where "cr = watchers s ! lidx lit ! i"
  define s1 where "s1 = normalize_watch (lit_not lit) cr s"
  from assms(1) have c: "cr < length (heap s)" "1 < length (heap s ! cr)"
    and n: "heap s1 ! cr ! 1 = lit_not lit"
    and e: "eval_lit (heap s1 ! cr ! 1) s1 = Inr LitBool_False"
    and x: "examine lit i cr s1 = Inr (Next_clause i', s')"
    unfolding visit_def Let_def cr_def[symmetric] s1_def[symmetric]
    by (auto simp: ebind_Inr_iff split: if_splits)
  have l: "1 < length (heap s1 ! cr)" using c by (auto simp: s1_def normalize_watch_def)
  from examine_measure[OF x _ _ _ l] assms c e n show ?thesis
    by (simp add: s1_def)
qed

text \<open>
  The loop over the watcher list of \<open>lit\<close>. It ends: a pass either advances \<open>i\<close> and
  leaves the list as it is, or keeps \<open>i\<close> and shortens the list by one (the new watch
  goes to another list, since \<open>nlit\<close> is False and the new watched literal is not).
\<close>

function watch_loop :: "Lit \<Rightarrow> nat \<Rightarrow> solver \<Rightarrow> error + (CRef option \<times> solver)" where
  "watch_loop lit i s =
     (if \<not> lidx lit < length (watchers s) then Inl Out_of_range
      else if i < length (watchers s ! lidx lit) then
        (case visit lit i s of
           Inl e \<Rightarrow> Inl e
         | Inr (Conflict cr, s') \<Rightarrow> Inr (Some cr, s')
         | Inr (Next_clause i', s') \<Rightarrow> watch_loop lit i' s')
      else Inr (None, s))"
  by pat_completeness auto
termination
proof (relation "measure (\<lambda>(lit, i, s). length (watchers s ! lidx lit) - i)", goal_cases)
  case 1 show ?case by simp
next
  case (2 lit i s x2 x y i')
  then have "visit lit i s = Inr (Next_clause i', y)" by simp
  from visit_measure[OF this] 2 show ?case by simp
qed

text \<open>
  The number of unassigned variables: each \<open>enqueue\<close> takes one, which bounds the
  number of literals \<^verbatim>\<open>propagate\<close> can append to the trail.
\<close>

definition unassigned :: "solver \<Rightarrow> nat" where
  "unassigned s = length (filter (\<lambda>x. x = None) (levels s))"

lemma filter_update_less:
  assumes "i < length xs" "P (xs ! i)" "\<not> P y"
  shows "Suc (length (filter P (xs[i := y]))) = length (filter P xs)"
proof -
  have "xs = take i xs @ xs ! i # drop (Suc i) xs" using assms(1) by (rule id_take_nth_drop)
  then have "length (filter P xs) = length (filter P (take i xs @ xs ! i # drop (Suc i) xs))" by simp
  moreover have "xs[i := y] = take i xs @ y # drop (Suc i) xs" using assms(1) by (rule upd_conv_take_nth_drop)
  ultimately show ?thesis using assms by simp
qed

lemma enqueue_budget:
  assumes "enqueue l r s = Inr s'"
  shows "Suc (unassigned s') = unassigned s \<and> length (que s') = Suc (length (que s)) \<and> que_head s' = que_head s"
proof -
  from assms obtain d where v: "vidx l < length (levels s)" "levels s ! vidx l = None"
    and s': "s' = s\<lparr>levels := (levels s)[vidx l := Some d],
                    assings := (assings s)[vidx l := pos l],
                    reasons := (reasons s)[vidx l := r],
                    que := que s @ [l]\<rparr>"
    by (auto simp: enqueue_def ebind_Inr_iff split: if_splits)
  from filter_update_less[of "vidx l" "levels s" "\<lambda>x. x = None" "Some d"] v
  show ?thesis by (simp add: s' unassigned_def)
qed

lemma move_watch_fields:
  assumes "move_watch lit i cr k s = Inr s'"
  shows "levels s' = levels s \<and> que s' = que s \<and> que_head s' = que_head s
       \<and> assings s' = assings s \<and> reasons s' = reasons s"
  using assms by (auto simp: move_watch_def push_watch_def Let_def split: if_splits)

lemma examine_budget:
  assumes "examine lit i cr s = Inr (Next_clause i', s')"
  shows "que_head s' = que_head s \<and> 2 * unassigned s' + length (que s') \<le> 2 * unassigned s + length (que s)"
proof -
  from assms obtain e0 where e0: "eval_lit (heap s ! cr ! 0) s = Inr e0"
    by (auto simp: examine_def Let_def ebind_Inr_iff)
  show ?thesis
  proof (cases "e0 = LitBool_True")
    case True
    with assms e0 show ?thesis by (auto simp: examine_def Let_def)
  next
    case False
    with assms(1) e0 obtain found where f: "find_watch (drop 2 (heap s ! cr)) 2 s = Inr found"
      by (auto simp: examine_def Let_def ebind_Inr_iff)
    show ?thesis
    proof (cases found)
      case None
      with assms(1) e0 False f have "enqueue (heap s ! cr ! 0) (Some cr) s = Inr s'"
        by (auto simp: examine_def Let_def ebind_Inr_iff split: if_splits)
      from enqueue_budget[OF this] show ?thesis by auto
    next
      case (Some k)
      with assms(1) e0 False f have mv: "move_watch lit i cr k s = Inr s'"
        by (auto simp: examine_def Let_def ebind_Inr_iff split: if_splits)
      from move_watch_fields[OF mv] show ?thesis by (simp add: unassigned_def)
    qed
  qed
qed

lemma visit_budget:
  assumes "visit lit i s = Inr (Next_clause i', s')"
  shows "que_head s' = que_head s \<and> 2 * unassigned s' + length (que s') \<le> 2 * unassigned s + length (que s)"
proof -
  define cr where "cr = watchers s ! lidx lit ! i"
  define s1 where "s1 = normalize_watch (lit_not lit) cr s"
  from assms(1) have x: "examine lit i cr s1 = Inr (Next_clause i', s')"
    unfolding visit_def Let_def cr_def[symmetric] s1_def[symmetric]
    by (auto simp: ebind_Inr_iff split: if_splits)
  from examine_budget[OF x] show ?thesis
    by (simp add: s1_def unassigned_def)
qed

lemma watch_loop_budget:
  "watch_loop lit i s = Inr (None, s') \<Longrightarrow>
   que_head s' = que_head s \<and> 2 * unassigned s' + length (que s') \<le> 2 * unassigned s + length (que s)"
proof (induction lit i s rule: watch_loop.induct)
  case (1 lit i s)
  show ?case
  proof (cases "lidx lit < length (watchers s) \<and> i < length (watchers s ! lidx lit)")
    case False
    with "1.prems" show ?thesis by (auto split: if_splits)
  next
    case True
    with "1.prems" obtain i' s1 where v: "visit lit i s = Inr (Next_clause i', s1)"
      and w: "watch_loop lit i' s1 = Inr (None, s')"
      by (auto split: sum.splits visit_result.splits)
    from "1.IH"[OF _ _ v refl refl w] True visit_budget[OF v] show ?thesis by auto
  qed
qed

text \<open>\<^verbatim>\<open>propagate\<close>: the loop over the trail from the propagation cursor.\<close>

function propagate :: "solver \<Rightarrow> error + (CRef option \<times> solver)" where
  "propagate s =
     (if que_head s < length (que s) then
        let lit = que s ! que_head s; s1 = s\<lparr>que_head := que_head s + 1\<rparr> in
        if \<not> lidx lit < length (watchers s1) then Inl Out_of_range
        else case watch_loop lit 0 s1 of
            Inl e \<Rightarrow> Inl e
          | Inr (Some cr, s2) \<Rightarrow> Inr (Some cr, s2)
          | Inr (None, s2) \<Rightarrow> propagate s2
      else Inr (None, s))"
  by pat_completeness auto
termination
proof (relation "measure (\<lambda>s. 2 * unassigned s + length (que s) - que_head s)", goal_cases)
  case 1 show ?case by simp
next
  case (2 s lit s1 x2 x y)
  then have "watch_loop (que s ! que_head s) 0 (s\<lparr>que_head := que_head s + 1\<rparr>) = Inr (None, y)" by simp
  from watch_loop_budget[OF this]
  have "que_head y = Suc (que_head s)"
    and "2 * unassigned y + length (que y) \<le> 2 * unassigned s + length (que s)"
    by (simp_all add: unassigned_def)
  with 2(1) show ?case by simp
qed

subsection \<open>Conflict analysis\<close>

text \<open>
  \<^verbatim>\<open>levels[lit.vidx()] < conflicted_decision_level\<close> compares a
  \<^verbatim>\<open>std::optional<int>\<close> with an \<^verbatim>\<open>int\<close>: an empty optional is less than every
  value.
\<close>

definition opt_lt :: "int option \<Rightarrow> int \<Rightarrow> bool" where
  "opt_lt a b = (case a of None \<Rightarrow> True | Some x \<Rightarrow> x < b)"

text \<open>
  The locals of \<^verbatim>\<open>analyze\<close> that its loops update: \<^verbatim>\<open>checking_variables\<close>,
  \<^verbatim>\<open>learnt_clause\<close> and \<^verbatim>\<open>counter\<close>.
\<close>

type_synonym analysis = "Var set \<times> Clause \<times> int"

text \<open>The loop over the literals of the conflicting clause.\<close>

fun seed :: "Lit list \<Rightarrow> int \<Rightarrow> solver \<Rightarrow> analysis \<Rightarrow> error + analysis" where
  "seed [] d s a = Inr a"
| "seed (lit # lits) d s (checking_variables, learnt_clause, counter) =
     ebind (eval_lit lit s) (\<lambda>e.
       if e \<noteq> LitBool_False then Inl (Assertion_failed ''eval(lit) == LitBool::False'')
       else if \<not> vidx lit < length (levels s) then Inl Out_of_range
       else if opt_lt (levels s ! vidx lit) d
         then seed lits d s (insert (var lit) checking_variables, learnt_clause @ [lit], counter)
         else seed lits d s (insert (var lit) checking_variables, learnt_clause, counter + 1))"

text \<open>
  The loop \<^verbatim>\<open>for (size_t j = 1; j < clause.size(); j++)\<close> over the other literals of
  a reason clause.
\<close>

fun resolve :: "Lit list \<Rightarrow> int \<Rightarrow> solver \<Rightarrow> analysis \<Rightarrow> error + analysis" where
  "resolve [] d s a = Inr a"
| "resolve (clit # clits) d s (checking_variables, learnt_clause, counter) =
     (if var clit \<in> checking_variables
        then resolve clits d s (checking_variables, learnt_clause, counter)
      else if \<not> vidx clit < length (levels s) then Inl Out_of_range
      else if opt_lt (levels s ! vidx clit) d
        then resolve clits d s (insert (var clit) checking_variables, learnt_clause @ [clit], counter)
        else resolve clits d s (insert (var clit) checking_variables, learnt_clause, counter + 1))"

text \<open>
  The body of the walk down the trail at position \<open>i\<close>: \<open>Inl\<close> is the \<^verbatim>\<open>break\<close> with
  the first UIP (and the learnt clause so far), \<open>Inr\<close> the locals for the next position.
\<close>

definition walk_body ::
  "nat \<Rightarrow> int \<Rightarrow> solver \<Rightarrow> analysis \<Rightarrow> error + ((Lit \<times> Clause) + analysis)" where
  "walk_body i d s a =
     (let checking_variables = fst a; learnt_clause = fst (snd a); counter = snd (snd a) in
      if \<not> i < length (que s) then Inl Out_of_range
      else let lit = que s ! i in
        if var lit \<notin> checking_variables then Inr (Inr a)
        else let counter1 = counter - 1 in
          if counter1 \<le> 0 then Inr (Inl (lit, learnt_clause))
          else let checking_variables1 = insert (var lit) checking_variables in
            if \<not> vidx lit < length (reasons s) then Inl Out_of_range
            else case reasons s ! vidx lit of
                None \<Rightarrow> Inl (Assertion_failed ''reasons[lit.vidx()].has_value()'')
              | Some reason \<Rightarrow>
                  if \<not> reason < length (heap s) then Inl Out_of_range
                  else let clause = heap s ! reason in
                    if clause = [] then Inl Out_of_range
                    else if clause ! 0 \<noteq> lit then Inl (Assertion_failed ''clause[0] == lit'')
                    else ebind (resolve (drop 1 clause) d s
                                  (checking_variables1, learnt_clause, counter1))
                           (\<lambda>a1. Inr (Inr a1)))"

text \<open>
  \<^verbatim>\<open>for (size_t i = que.size() - 1; true; i--)\<close>: the loop has no lower bound, and
  \<^verbatim>\<open>i--\<close> at 0 wraps to an index outside the trail.
\<close>

fun walk :: "nat \<Rightarrow> int \<Rightarrow> solver \<Rightarrow> analysis \<Rightarrow> error + (Lit \<times> Clause)" where
  "walk 0 d s a =
     (case walk_body 0 d s a of
        Inl e \<Rightarrow> Inl e
      | Inr (Inl found) \<Rightarrow> Inr found
      | Inr (Inr a1) \<Rightarrow> Inl Out_of_range)"
| "walk (Suc i) d s a =
     (case walk_body (Suc i) d s a of
        Inl e \<Rightarrow> Inl e
      | Inr (Inl found) \<Rightarrow> Inr found
      | Inr (Inr a1) \<Rightarrow> walk i d s a1)"

text \<open>The loop that computes \<^verbatim>\<open>back_jump_level\<close> over \<^verbatim>\<open>learnt_clause[1..]\<close>.\<close>

fun back_jump :: "Lit list \<Rightarrow> solver \<Rightarrow> int \<Rightarrow> error + int" where
  "back_jump [] s back_jump_level = Inr back_jump_level"
| "back_jump (l # ls) s back_jump_level =
     (if \<not> vidx l < length (levels s) then Inl Out_of_range
      else case levels s ! vidx l of
          None \<Rightarrow> Inl (Assertion_failed ''levels[learnt_clause[i].vidx()].has_value()'')
        | Some x \<Rightarrow> back_jump ls s (max back_jump_level x))"

definition analyze :: "CRef \<Rightarrow> solver \<Rightarrow> error + (Clause \<times> int)" where
  "analyze conflict s =
     ebind (decision_level s) (\<lambda>conflicted_decision_level.
       if \<not> conflict < length (heap s) then Inl Out_of_range
       else ebind (seed (heap s ! conflict) conflicted_decision_level s ({}, [], 0)) (\<lambda>a.
         if \<not> snd (snd a) \<ge> 1 then Inl (Assertion_failed ''counter >= 1'')
         else if que s = [] then Inl Out_of_range
         else ebind (walk (length (que s) - 1) conflicted_decision_level s a) (\<lambda>found.
           let first_uip = fst found;
               learnt_clause = snd found @ [lit_not first_uip];
               learnt_clause = swap_elems 0 (length learnt_clause - 1) learnt_clause
           in ebind (back_jump (drop 1 learnt_clause) s 0) (\<lambda>back_jump_level.
                Inr (learnt_clause, back_jump_level)))))"

subsection \<open>The search driver\<close>

text \<open>
  The loop \<^verbatim>\<open>for (size_t v = 0; v < assings.size(); v++)\<close> of \<^verbatim>\<open>solve\<close> that
  picks the first variable without a level; the first argument is the list of the
  indices still to visit.
\<close>

fun first_undefined :: "nat list \<Rightarrow> solver \<Rightarrow> error + Lit option" where
  "first_undefined [] s = Inr None"
| "first_undefined (v # vs) s =
     (if \<not> v < length (levels s) then Inl Out_of_range
      else if levels s ! v = None then Inr (Some (Lit v (assings s ! v)))
      else first_undefined vs s)"

text \<open>
  One pass of the body of \<^verbatim>\<open>while (true)\<close> in \<^verbatim>\<open>solve\<close>: \<open>Some\<close> is the status
  returned, \<open>None\<close> means the loop goes on. \<open>learn\<close> installs the learnt clause after the
  backjump, \<open>on_conflict\<close> is the branch of a conflict, \<open>on_fixpoint\<close> the other one.
\<close>

definition learn :: "Clause \<Rightarrow> solver \<Rightarrow> error + solver" where
  "learn learnt_clause s =
     (if length learnt_clause = 1 then enqueue (learnt_clause ! 0) None s
      else case make_shared learnt_clause s of (cr, s1) \<Rightarrow>
        ebind (attach_clause cr True s1) (\<lambda>s2. enqueue (learnt_clause ! 0) (Some cr) s2))"

definition on_conflict :: "CRef \<Rightarrow> solver \<Rightarrow> error + (Status option \<times> solver)" where
  "on_conflict conflict s =
     ebind (decision_level s) (\<lambda>d.
       if d = 0 then Inr (Some Unsat, s)
       else ebind (analyze conflict s) (\<lambda>r.
         ebind (pop_queue_until (snd r) s) (\<lambda>s1.
           ebind (learn (fst r) s1) (\<lambda>s2. Inr (None, s2)))))"

definition on_fixpoint :: "solver \<Rightarrow> error + (Status option \<times> solver)" where
  "on_fixpoint s =
     ebind (first_undefined [0..<length (assings s)] s) (\<lambda>next.
       case next of
         Some l \<Rightarrow> ebind (new_decision l None s) (\<lambda>s1. Inr (None, s1))
       | None \<Rightarrow> Inr (Some Sat, s))"

definition solve_step :: "solver \<Rightarrow> error + (Status option \<times> solver)" where
  "solve_step s =
     ebind (propagate s) (\<lambda>p.
       case fst p of
         Some conflict \<Rightarrow> on_conflict conflict (snd p)
       | None \<Rightarrow> on_fixpoint (snd p))"

text \<open>
  \<^verbatim>\<open>solve\<close>. Nothing in the source bounds the number of passes, so the model is a
  partial function: \<open>None\<close> is a run that never returns.
\<close>

partial_function (option) solve :: "solver \<Rightarrow> (error + Status \<times> solver) option" where
  "solve s =
     (case solve_step s of
        Inl e \<Rightarrow> Some (Inl e)
      | Inr (Some st, s1) \<Rightarrow> Some (Inr (st, s1))
      | Inr (None, s1) \<Rightarrow> solve s1)"

declare solve.simps [code]

subsection \<open>Reachable states\<close>

text \<open>
  The states a client reaches through the interface, and the states \<^verbatim>\<open>solve\<close> passes
  through between its calls: the constructor; \<^verbatim>\<open>add_clause\<close>; \<^verbatim>\<open>propagate\<close>; a
  decision on the first undefined variable; the backjump to the level \<^verbatim>\<open>analyze\<close>
  returned; the installation of the learnt clause after that backjump. Only calls that
  return count (a failed assertion ends the program). The relation does not record that
  \<^verbatim>\<open>solve\<close> decides only after a \<^verbatim>\<open>propagate\<close> without conflict, or that it
  analyzes the clause the last \<^verbatim>\<open>propagate\<close> returned: it contains every state of a run
  of \<^verbatim>\<open>solve\<close> (lemma \<open>solve_reachable\<close>), and possibly more.
\<close>

inductive reachable :: "solver \<Rightarrow> bool" where
  init: "reachable (Solver variable_num)"
| add: "reachable s \<Longrightarrow> add_clause clause s = Inr s' \<Longrightarrow> reachable s'"
| propagated: "reachable s \<Longrightarrow> propagate s = Inr (conflict, s') \<Longrightarrow> reachable s'"
| decided: "reachable s \<Longrightarrow> on_fixpoint s = Inr (None, s') \<Longrightarrow> reachable s'"
| backjumped:
    "reachable s \<Longrightarrow> analyze conflict s = Inr (learnt_clause, back_jump_level) \<Longrightarrow>
     pop_queue_until back_jump_level s = Inr s' \<Longrightarrow> reachable s'"
| learnt:
    "reachable s \<Longrightarrow> analyze conflict s = Inr (learnt_clause, back_jump_level) \<Longrightarrow>
     pop_queue_until back_jump_level s = Inr s1 \<Longrightarrow> learn learnt_clause s1 = Inr s' \<Longrightarrow>
     reachable s'"

section \<open>Invariants\<close>

subsection \<open>The trail\<close>

text \<open>
  The properties of the trail that the operations keep: the three per-variable arrays
  have one slot per variable (the watcher index two); a trail literal is in range and its
  variable holds the literal's polarity; no variable is twice on the trail; a variable has
  a level exactly when it is on the trail, and a reason only when it has a level; the
  levels along the trail start at 0 or 1 and go up in steps of at most one (\<open>stair\<close>).
  \<open>level_of\<close> is \<^verbatim>\<open>levels[l.vidx()].value_or(0)\<close>, \<open>top_level\<close> the level of
  the last trail entry (0 on the empty trail), \<open>assign\<close> the state after
  \<^verbatim>\<open>enqueue\<close> with level \<open>x\<close>, \<open>popped_ok u s s' n\<close> the relation between a state \<open>s\<close>
  and the state \<open>s'\<close> after the loop of \<^verbatim>\<open>pop_queue_until\<close> has cut the trail to its
  first \<open>n\<close> entries.
\<close>

definition level_of :: "solver \<Rightarrow> Lit \<Rightarrow> int" where
  "level_of s l = (case levels s ! vidx l of None \<Rightarrow> 0 | Some d \<Rightarrow> d)"

definition top_level :: "solver \<Rightarrow> int" where
  "top_level s = (if que s = [] then 0 else level_of s (last (que s)))"

fun stair :: "int \<Rightarrow> int list \<Rightarrow> bool" where
  "stair p [] = True"
| "stair p (x # xs) = ((x = p \<or> x = p + 1) \<and> stair x xs)"

definition trail_inv :: "solver \<Rightarrow> bool" where
  "trail_inv s \<longleftrightarrow>
     length (levels s) = length (assings s) \<and>
     length (reasons s) = length (assings s) \<and>
     length (watchers s) = 2 * length (assings s) \<and>
     (\<forall>l \<in> set (que s). vidx l < length (assings s) \<and> assings s ! vidx l = pos l) \<and>
     distinct (map vidx (que s)) \<and>
     (\<forall>v < length (assings s). (levels s ! v \<noteq> None) = (v \<in> vidx ` set (que s))) \<and>
     (\<forall>v < length (assings s). levels s ! v = None \<longrightarrow> reasons s ! v = None) \<and>
     stair 0 (map (level_of s) (que s))"

definition assign :: "Lit \<Rightarrow> CRef option \<Rightarrow> int \<Rightarrow> solver \<Rightarrow> solver" where
  "assign l r x s =
     s\<lparr>levels := (levels s)[vidx l := Some x],
       assings := (assings s)[vidx l := pos l],
       reasons := (reasons s)[vidx l := r],
       que := que s @ [l]\<rparr>"

definition popped_ok :: "int \<Rightarrow> solver \<Rightarrow> solver \<Rightarrow> nat \<Rightarrow> bool" where
  "popped_ok u s s' n \<longleftrightarrow>
     n \<le> length (que s) \<and> que s' = take n (que s) \<and>
     assings s' = assings s \<and> watchers s' = watchers s \<and> heap s' = heap s \<and>
     clauses s' = clauses s \<and> learnts s' = learnts s \<and> que_head s' = que_head s \<and>
     status s' = status s \<and>
     length (levels s') = length (levels s) \<and> length (reasons s') = length (reasons s) \<and>
     (\<forall>v. v \<notin> vidx ` set (drop n (que s)) \<longrightarrow>
          levels s' ! v = levels s ! v \<and> reasons s' ! v = reasons s ! v) \<and>
     (\<forall>l \<in> set (drop n (que s)). vidx l < length (levels s) \<and> vidx l < length (reasons s) \<and>
          opt_gt (levels s ! vidx l) u \<and>
          levels s' ! vidx l = None \<and> reasons s' ! vidx l = None) \<and>
     (n > 0 \<longrightarrow> vidx (que s ! (n - 1)) < length (levels s) \<and>
          \<not> opt_gt (levels s ! vidx (que s ! (n - 1))) u)"

subsection \<open>The watcher index\<close>

text \<open>
  \<open>watch_count s cr p\<close> is the number of occurrences of the handle \<open>cr\<close> in the watcher
  list of the literal \<open>p\<close>. A clause is \<open>watched\<close> when it has two literals at least and
  its handle occurs once in the list of the negation of its literal 0, once in the list of
  the negation of its literal 1 (twice in that list when the two are the same literal),
  and in no other list. \<open>watch_inv\<close>: every stored clause is watched, and the lists hold
  stored clauses only.
\<close>

definition watch_count :: "solver \<Rightarrow> CRef \<Rightarrow> Lit \<Rightarrow> nat" where
  "watch_count s cr p = count_list (watchers s ! lidx p) cr"

definition watched :: "solver \<Rightarrow> CRef \<Rightarrow> bool" where
  "watched s cr \<longleftrightarrow>
     cr < length (heap s) \<and> 1 < length (heap s ! cr) \<and>
     lidx (lit_not (heap s ! cr ! 0)) < length (watchers s) \<and>
     lidx (lit_not (heap s ! cr ! 1)) < length (watchers s) \<and>
     (\<forall>p. lidx p < length (watchers s) \<longrightarrow>
        watch_count s cr p = (if p = lit_not (heap s ! cr ! 0) then 1 else 0)
                           + (if p = lit_not (heap s ! cr ! 1) then 1 else 0))"

definition watch_inv :: "solver \<Rightarrow> bool" where
  "watch_inv s \<longleftrightarrow>
     (\<forall>cr \<in> set (clauses s). watched s cr) \<and>
     (\<forall>p < length (watchers s). set (watchers s ! p) \<subseteq> set (clauses s))"

text \<open>
  \<open>watching_lists s cr\<close>: the indices of the watcher lists that hold the handle \<open>cr\<close>, in
  increasing order, each index once however often the handle occurs in its list.
\<close>

definition watching_lists :: "solver \<Rightarrow> CRef \<Rightarrow> nat list" where
  "watching_lists s cr =
     filter (\<lambda>p. cr \<in> set (watchers s ! p)) [0..<length (watchers s)]"

subsection \<open>Reasons\<close>

text \<open>
  \<open>reason_ok s i r\<close>: the clause \<open>r\<close> has the shape of a reason of the trail entry \<open>i\<close>: its
  literal 0 is that entry, and every other literal is False and the negation of an earlier
  trail entry. \<open>reason_inv\<close>: every trail entry that has a reason has one of that shape.
\<close>

definition reason_ok :: "solver \<Rightarrow> nat \<Rightarrow> CRef \<Rightarrow> bool" where
  "reason_ok s i r \<longleftrightarrow>
     r < length (heap s) \<and> heap s ! r \<noteq> [] \<and> heap s ! r ! 0 = que s ! i \<and>
     (\<forall>j. 0 < j \<and> j < length (heap s ! r) \<longrightarrow>
        eval_lit (heap s ! r ! j) s = Inr LitBool_False \<and>
        (\<exists>i' < i. que s ! i' = lit_not (heap s ! r ! j)))"

definition reason_inv :: "solver \<Rightarrow> bool" where
  "reason_inv s \<longleftrightarrow>
     (\<forall>i < length (que s). \<forall>r. reasons s ! vidx (que s ! i) = Some r \<longrightarrow> reason_ok s i r)"

subsection \<open>Conflict analysis\<close>

text \<open>
  \<open>pending s d n cv\<close>: the variables of \<open>cv\<close> that one of the first \<open>n\<close> trail entries
  assigns at level \<open>d\<close>. When the walk of \<^verbatim>\<open>analyze\<close> has come down to position \<open>i\<close>,
  \<^verbatim>\<open>counter\<close> is meant to be the number of the variables in \<open>pending s d (i + 1) cv\<close> for
  the current \<^verbatim>\<open>checking_variables\<close> \<open>cv\<close>. \<open>reasons_at s d\<close>: a trail entry that comes
  after an entry of level \<open>d\<close> has a reason; at the level of the last decision of
  \<^verbatim>\<open>solve\<close> only the decision has none.
\<close>

definition pending :: "solver \<Rightarrow> int \<Rightarrow> nat \<Rightarrow> Var set \<Rightarrow> Var set" where
  "pending s d n cv = {v \<in> vidx ` set (take n (que s)). v \<in> cv \<and> levels s ! v = Some d}"

definition reasons_at :: "solver \<Rightarrow> int \<Rightarrow> bool" where
  "reasons_at s d \<longleftrightarrow>
     (\<forall>i < length (que s). \<forall>j < i. level_of s (que s ! j) = d \<longrightarrow>
        reasons s ! vidx (que s ! i) \<noteq> None)"

subsection \<open>Example states\<close>

text \<open>
  \<open>Solver 1\<close> after the first decision of \<^verbatim>\<open>solve\<close>, which
  assigns \<open>!x0\<close> at level 1.
\<close>

definition decided_state :: solver where
  "decided_state =
     \<lparr>assings = [False], status = None, clauses = [], learnts = [],
      watchers = [[], []], reasons = [None], levels = [Some 1],
      que = [1], que_head = 0, heap = []\<rparr>"

text \<open>
  \<open>Solver 3\<close> with the clause \<open>{x0, x1, x2}\<close>, after \<^verbatim>\<open>solve\<close>
  has decided \<open>!x0\<close>, propagated (the watch on \<open>x0\<close> moves to \<open>x2\<close>), decided \<open>!x1\<close> and
  propagated again (the clause, now \<open>[x2, x1, x0]\<close>, forces \<open>x2\<close> and is its reason).
\<close>

definition propagated_state :: solver where
  "propagated_state =
     \<lparr>assings = [False, False, True], status = None, clauses = [0], learnts = [],
      watchers = [[], [], [], [0], [], [0]], reasons = [None, None, Some 0],
      levels = [Some 1, Some 2, Some 2], que = [1, 3, 4], que_head = 3,
      heap = [[4, 2, 0]]\<rparr>"

text \<open>
  \<open>Solver 1\<close> after \<open>add_clause {x0}\<close> and the unchecked \<open>enqueue\<close> of \<open>!x0\<close>: both
  literals are on the trail, and the variable holds the second polarity.
\<close>

definition contradictory_units_state :: solver where
  "contradictory_units_state =
     \<lparr>assings = [False], status = None, clauses = [], learnts = [],
      watchers = [[], []], reasons = [None], levels = [Some 0],
      que = [0, 1], que_head = 0, heap = []\<rparr>"

text \<open>
  \<open>Solver 1\<close> after \<open>add_clause {x0, x0}\<close>: \<^verbatim>\<open>attach_clause\<close> has pushed the handle
  on the list of \<open>!x0\<close> for literal 0 and on the same list again for literal 1.
\<close>

definition attached_repeated_state :: solver where
  "attached_repeated_state =
     \<lparr>assings = [False], status = None, clauses = [0], learnts = [],
      watchers = [[], [0, 0]], reasons = [None], levels = [None],
      que = [], que_head = 0, heap = [[0, 0]]\<rparr>"

text \<open>
  \<open>Solver 1\<close> with the clause \<open>{x0, x0}\<close>, after the first decision of \<^verbatim>\<open>solve\<close>
  (\<open>!x0\<close> at level 1).
\<close>

definition repeated_literal_state :: solver where
  "repeated_literal_state =
     \<lparr>assings = [False], status = None, clauses = [0], learnts = [],
      watchers = [[], [0, 0]], reasons = [None], levels = [Some 1],
      que = [1], que_head = 0, heap = [[0, 0]]\<rparr>"

text \<open>
  \<open>Solver 2\<close> with the clauses \<open>{x0, x1}\<close> and \<open>{x0, !x1}\<close>, after \<^verbatim>\<open>solve\<close> has
  decided \<open>!x0\<close> and the next \<^verbatim>\<open>propagate\<close> has forced \<open>x1\<close> by the first clause and
  found the second one (handle 1, now \<open>[!x1, x0]\<close>) in conflict.
\<close>

definition conflict_state :: solver where
  "conflict_state =
     \<lparr>assings = [False, True], status = None, clauses = [0, 1], learnts = [],
      watchers = [[], [0, 1], [1], [0]], reasons = [None, Some 0],
      levels = [Some 1, Some 1], que = [1, 2], que_head = 2,
      heap = [[2, 0], [3, 0]]\<rparr>"

section \<open>Properties of the trail operations\<close>

declare pop_loop.simps [simp del]

lemma pop_loop_success:
  "(\<forall>l \<in> set (que s). vidx l < length (levels s) \<and> vidx l < length (reasons s)) \<Longrightarrow>
   \<exists>s'. pop_loop u s = Inr s'"
proof (induction u s rule: pop_loop.induct)
  case (1 u s)
  show ?case
  proof (cases "que s \<noteq> [] \<and> opt_gt (levels s ! vidx (last (que s))) u")
    case False
    then show ?thesis using "1.prems" by (subst pop_loop.simps) (auto simp: Let_def)
  next
    case True
    define s2 where "s2 = s\<lparr>reasons := (reasons s)[vidx (last (que s)) := None],
                     levels := (levels s)[vidx (last (que s)) := None],
                     que := butlast (que s)\<rparr>"
    from True "1.prems" have r: "vidx (last (que s)) < length (levels s)" "vidx (last (que s)) < length (reasons s)"
      by auto
    have "\<forall>l \<in> set (que s2). vidx l < length (levels s2) \<and> vidx l < length (reasons s2)"
      using "1.prems" by (auto simp: s2_def dest: in_set_butlastD)
    from "1.IH"[OF _ refl _ _ _ this[unfolded s2_def]] True r
    obtain s' where "pop_loop u s2 = Inr s'" by (auto simp: s2_def)
    moreover have "pop_loop u s = pop_loop u s2"
      using True r by (subst pop_loop.simps) (simp add: Let_def s2_def)
    ultimately show ?thesis by simp
  qed
qed

lemma pop_loop_result:
  "pop_loop u s = Inr s' \<Longrightarrow> distinct (map vidx (que s)) \<Longrightarrow> \<exists>n. popped_ok u s s' n"
proof (induction u s rule: pop_loop.induct)
  case (1 u s)
  show ?case
  proof (cases "que s = []")
    case True
    with "1.prems" have "s' = s" by (subst (asm) pop_loop.simps) simp
    with True have "popped_ok u s s' 0" by (simp add: popped_ok_def)
    then show ?thesis ..
  next
    case ne: False
    define lit where "lit = last (que s)"
    from ne "1.prems"(1) have r: "vidx lit < length (levels s)"
      by (subst (asm) pop_loop.simps) (auto simp: Let_def lit_def split: if_splits)
    have q: "que s = butlast (que s) @ [lit]" using ne by (simp add: lit_def)
    show ?thesis
    proof (cases "opt_gt (levels s ! vidx lit) u")
      case False
      with ne r "1.prems" have "s' = s" by (subst (asm) pop_loop.simps) (simp add: Let_def lit_def)
      moreover have "que s ! (length (que s) - 1) = lit" using ne by (simp add: lit_def last_conv_nth)
      ultimately have "popped_ok u s s' (length (que s))" using False r ne
        by (simp add: popped_ok_def)
      then show ?thesis ..
    next
      case True
      define s2 where "s2 = s\<lparr>reasons := (reasons s)[vidx lit := None],
                     levels := (levels s)[vidx lit := None],
                     que := butlast (que s)\<rparr>"
      from ne r True "1.prems"(1) have r2: "vidx lit < length (reasons s)" and p: "pop_loop u s2 = Inr s'"
        by (subst (asm) pop_loop.simps; simp add: Let_def lit_def s2_def split: if_splits)+
      have d2: "distinct (map vidx (que s2))" using distinct_butlast[OF "1.prems"(2)]
        by (simp add: s2_def map_butlast)
      from "1.IH"[OF ne lit_def _ _ _ p[unfolded s2_def] d2[unfolded s2_def]] r r2 True
      obtain n where n: "popped_ok u s2 s' n" by (auto simp: s2_def)
      have notin: "vidx lit \<notin> vidx ` set (butlast (que s))"
        using "1.prems"(2) by (subst (asm) q) (auto simp: image_iff)
      have nl: "n \<le> length (butlast (que s))" using n by (simp add: popped_ok_def s2_def)
      then have tk: "take n (butlast (que s)) = take n (que s)"
        by (subst (2) q) simp
      have dr: "drop n (que s) = drop n (butlast (que s)) @ [lit]"
        using nl by (subst q) simp
      have nth: "n > 0 \<Longrightarrow> butlast (que s) ! (n - 1) = que s ! (n - 1)"
        using nl by (simp add: nth_butlast)
      have other: "\<And>l. l \<in> set (drop n (butlast (que s))) \<Longrightarrow> vidx l \<noteq> vidx lit"
        using notin by (metis image_eqI in_set_dropD)
      from n have n1: "que s' = take n (butlast (que s))"
        and n2: "assings s' = assings s" "watchers s' = watchers s" "heap s' = heap s"
          "clauses s' = clauses s" "learnts s' = learnts s" "que_head s' = que_head s"
          "status s' = status s" "length (levels s') = length (levels s)"
          "length (reasons s') = length (reasons s)"
        and n3: "\<And>v. v \<notin> vidx ` set (drop n (butlast (que s))) \<Longrightarrow>
                  levels s' ! v = (levels s)[vidx lit := None] ! v \<and>
                  reasons s' ! v = (reasons s)[vidx lit := None] ! v"
        and n4: "\<And>l. l \<in> set (drop n (butlast (que s))) \<Longrightarrow>
                  vidx l < length (levels s) \<and> vidx l < length (reasons s) \<and>
                  opt_gt ((levels s)[vidx lit := None] ! vidx l) u \<and>
                  levels s' ! vidx l = None \<and> reasons s' ! vidx l = None"
        and n5: "n > 0 \<Longrightarrow> vidx (butlast (que s) ! (n - 1)) < length (levels s) \<and>
                  \<not> opt_gt ((levels s)[vidx lit := None] ! vidx (butlast (que s) ! (n - 1))) u"
        by (simp_all add: popped_ok_def s2_def)
      have a: "n \<le> length (que s)" using nl by simp
      have b: "que s' = take n (que s)" using n1 tk by simp
      have c: "\<And>v. v \<notin> vidx ` set (drop n (que s)) \<Longrightarrow>
                levels s' ! v = levels s ! v \<and> reasons s' ! v = reasons s ! v"
      proof -
        fix v assume "v \<notin> vidx ` set (drop n (que s))"
        then have "v \<notin> vidx ` set (drop n (butlast (que s)))" "v \<noteq> vidx lit"
          by (auto simp: dr)
        with n3[of v] show "levels s' ! v = levels s ! v \<and> reasons s' ! v = reasons s ! v"
          by simp
      qed
      have lit_cleared: "levels s' ! vidx lit = None \<and> reasons s' ! vidx lit = None"
      proof -
        have "vidx lit \<notin> vidx ` set (drop n (butlast (que s)))"
        proof
          assume "vidx lit \<in> vidx ` set (drop n (butlast (que s)))"
          then obtain l where "l \<in> set (drop n (butlast (que s)))" "vidx lit = vidx l"
            by (rule imageE)
          with other[of l] show False by simp
        qed
        from n3[OF this] r r2 show ?thesis by simp
      qed
      have d: "\<And>l. l \<in> set (drop n (que s)) \<Longrightarrow>
                vidx l < length (levels s) \<and> vidx l < length (reasons s) \<and>
                opt_gt (levels s ! vidx l) u \<and>
                levels s' ! vidx l = None \<and> reasons s' ! vidx l = None"
      proof -
        fix l assume "l \<in> set (drop n (que s))"
        then consider "l = lit" | "l \<in> set (drop n (butlast (que s)))" by (auto simp: dr)
        then show "vidx l < length (levels s) \<and> vidx l < length (reasons s) \<and>
                opt_gt (levels s ! vidx l) u \<and>
                levels s' ! vidx l = None \<and> reasons s' ! vidx l = None"
        proof cases
          case 1 then show ?thesis using r r2 True lit_cleared by simp
        next
          case 2
          from n4[OF 2] other[OF 2] show ?thesis by simp
        qed
      qed
      have e: "n > 0 \<Longrightarrow> vidx (que s ! (n - 1)) < length (levels s) \<and>
                  \<not> opt_gt (levels s ! vidx (que s ! (n - 1))) u"
      proof -
        assume n0: "n > 0"
        then have "n - 1 < length (butlast (que s))" using nl by simp
        then have "butlast (que s) ! (n - 1) \<in> set (butlast (que s))" by (rule nth_mem)
        then have "vidx (butlast (que s) ! (n - 1)) \<noteq> vidx lit" using notin by (metis image_eqI)
        with n5[OF n0] nth[OF n0] show ?thesis by simp
      qed
      have "popped_ok u s s' n"
        unfolding popped_ok_def using a b n2 c d e by blast
      then show ?thesis ..
    qed
  qed
qed

lemma stair_append:
  "stair p (xs @ [y]) \<longleftrightarrow> stair p xs \<and> (y = last (p # xs) \<or> y = last (p # xs) + 1)"
  by (induction xs arbitrary: p) auto

lemma stair_take: "stair p xs \<Longrightarrow> stair p (take n xs)"
proof (induction xs arbitrary: p n)
  case Nil then show ?case by simp
next
  case (Cons x xs) then show ?case by (cases n) auto
qed

lemma stair_ge: "stair p xs \<Longrightarrow> x \<in> set xs \<Longrightarrow> p \<le> x"
  by (induction xs arbitrary: p) force+

lemma stair_sorted: "stair p xs \<Longrightarrow> sorted xs"
  by (induction xs arbitrary: p) (auto dest: stair_ge)

lemma stair_hd: "stair p xs \<Longrightarrow> xs \<noteq> [] \<Longrightarrow> xs ! 0 \<le> p + 1"
  by (cases xs) auto

lemma stair_step: "stair p xs \<Longrightarrow> Suc n < length xs \<Longrightarrow> xs ! Suc n \<le> xs ! n + 1"
proof (induction xs arbitrary: p n)
  case Nil then show ?case by simp
next
  case (Cons x xs)
  show ?case
  proof (cases n)
    case 0
    with Cons.prems show ?thesis by (cases xs) auto
  next
    case (Suc m)
    with Cons.prems Cons.IH[of x m] show ?thesis by auto
  qed
qed

lemma trail_inv_Solver: "trail_inv (Solver n)"
  by (simp add: trail_inv_def Solver_def)

lemma decision_level_eq: "trail_inv s \<Longrightarrow> decision_level s = Inr (top_level s)"
  by (auto simp: decision_level_def trail_inv_def level_of_def Let_def top_level_def)

lemma assign_fields [simp]:
  "que (assign l r x s) = que s @ [l]"
  "levels (assign l r x s) = (levels s)[vidx l := Some x]"
  "assings (assign l r x s) = (assings s)[vidx l := pos l]"
  "reasons (assign l r x s) = (reasons s)[vidx l := r]"
  "watchers (assign l r x s) = watchers s"
  "heap (assign l r x s) = heap s"
  "clauses (assign l r x s) = clauses s"
  "learnts (assign l r x s) = learnts s"
  "que_head (assign l r x s) = que_head s"
  by (simp_all add: assign_def)

lemma trail_inv_assign:
  assumes "trail_inv s" "vidx l < length (levels s)" "levels s ! vidx l = None"
    "x = top_level s \<or> x = top_level s + 1"
  shows "trail_inv (assign l r x s)"
proof -
  define s' where "s' = assign l r x s"
  from assms have notin: "vidx l \<notin> vidx ` set (que s)" by (auto simp: trail_inv_def)
  then have notin': "\<And>y. y \<in> set (que s) \<Longrightarrow> vidx l \<noteq> vidx y" by (metis imageI)
  have lv: "map (level_of s') (que s) = map (level_of s) (que s)"
    using notin' by (simp add: s'_def level_of_def)
  have lvl: "level_of s' l = x" using assms(2) by (simp add: s'_def level_of_def)
  have qs: "que s' = que s @ [l]" by (simp add: s'_def)
  have ld: "last (0 # map (level_of s) (que s)) = top_level s"
    by (simp add: top_level_def last_map)
  have "map (level_of s') (que s') = map (level_of s) (que s) @ [x]"
    by (simp add: qs lv lvl)
  moreover have "stair 0 (map (level_of s) (que s) @ [x])"
    unfolding stair_append using assms(1,4) ld by (simp add: trail_inv_def)
  ultimately have st: "stair 0 (map (level_of s') (que s'))" by simp
  have a: "\<forall>l' \<in> set (que s'). vidx l' < length (assings s') \<and> assings s' ! vidx l' = pos l'"
    using assms(1,2) notin' by (auto simp: s'_def trail_inv_def nth_list_update)
  have b: "distinct (map vidx (que s'))" using assms(1) notin by (simp add: s'_def trail_inv_def)
  have c: "\<forall>v < length (assings s'). (levels s' ! v \<noteq> None) = (v \<in> vidx ` set (que s'))"
    using assms(1,2) by (auto simp: s'_def trail_inv_def nth_list_update)
  have e: "\<forall>v < length (assings s'). levels s' ! v = None \<longrightarrow> reasons s' ! v = None"
    using assms(1,2) by (auto simp: s'_def trail_inv_def nth_list_update)
  have f: "length (levels s') = length (assings s')" "length (reasons s') = length (assings s')"
     "length (watchers s') = 2 * length (assings s')"
    using assms(1) by (simp_all add: s'_def trail_inv_def)
  show ?thesis unfolding trail_inv_def s'_def[symmetric] using a b c e f st by blast
qed

lemma enqueue_Inr:
  assumes "trail_inv s"
  shows "enqueue l r s = Inr s' \<longleftrightarrow>
         vidx l < length (levels s) \<and> levels s ! vidx l = None \<and> s' = assign l r (top_level s) s"
  using assms decision_level_eq[OF assms]
  by (auto simp: enqueue_def assign_def trail_inv_def)

lemma new_decision_Inr:
  assumes "trail_inv s"
  shows "new_decision l r s = Inr s' \<longleftrightarrow>
         vidx l < length (levels s) \<and> levels s ! vidx l = None \<and>
         s' = assign l r (top_level s + 1) s"
  unfolding new_decision_def ebind_Inr_iff enqueue_Inr[OF assms]
  by (auto simp: assign_def)

lemma trail_inv_enqueue: "trail_inv s \<Longrightarrow> enqueue l r s = Inr s' \<Longrightarrow> trail_inv s'"
  by (simp add: enqueue_Inr trail_inv_assign)

lemma trail_inv_new_decision: "trail_inv s \<Longrightarrow> new_decision l r s = Inr s' \<Longrightarrow> trail_inv s'"
  by (simp add: new_decision_Inr trail_inv_assign)

lemma trail_inv_new_var: "trail_inv s \<Longrightarrow> trail_inv (new_var s)"
  by (auto simp: trail_inv_def new_var_def nth_append level_of_def cong: map_cong)

lemma trail_inv_grow: "trail_inv s \<Longrightarrow> trail_inv (grow c s)"
  unfolding grow_def by (induction c arbitrary: s) (auto simp: trail_inv_new_var)

lemma trail_inv_frame:
  assumes "trail_inv s" "levels s' = levels s" "assings s' = assings s" "reasons s' = reasons s"
    "que s' = que s" "length (watchers s') = length (watchers s)"
  shows "trail_inv s'"
  using assms by (simp add: trail_inv_def level_of_def cong: map_cong)

lemma opt_gt_level_of:
  "levels s ! vidx l \<noteq> None \<Longrightarrow> opt_gt (levels s ! vidx l) u \<longleftrightarrow> level_of s l > u"
  by (auto simp: opt_gt_def level_of_def)

lemma trail_inv_in_range:
  "trail_inv s \<Longrightarrow> l \<in> set (que s) \<Longrightarrow>
   vidx l < length (levels s) \<and> vidx l < length (reasons s) \<and> vidx l < length (assings s)
   \<and> levels s ! vidx l \<noteq> None"
  by (auto simp: trail_inv_def)

lemma distinct_take_drop_disjoint:
  assumes "distinct (map f xs)" "a \<in> set (take n xs)" "b \<in> set (drop n xs)"
  shows "f a \<noteq> f b"
proof -
  have "distinct (map f (take n xs) @ map f (drop n xs))"
    using assms(1) by (simp flip: map_append)
  then have "set (map f (take n xs)) \<inter> set (map f (drop n xs)) = {}" by simp
  with assms(2,3) show ?thesis by auto
qed

lemma pop_loop_trail:
  assumes "trail_inv s"
  shows "\<exists>s' n. pop_loop u s = Inr s' \<and> popped_ok u s s' n \<and> trail_inv s' \<and>
           (\<forall>l \<in> set (take n (que s)). level_of s l \<le> u \<and> level_of s' l = level_of s l) \<and>
           (\<forall>l \<in> set (drop n (que s)). level_of s l > u)"
proof -
  have rng: "\<forall>l \<in> set (que s). vidx l < length (levels s) \<and> vidx l < length (reasons s)"
    using trail_inv_in_range[OF assms] by blast
  from pop_loop_success[OF rng] obtain s' where p: "pop_loop u s = Inr s'" by blast
  have dist: "distinct (map vidx (que s))" using assms by (simp add: trail_inv_def)
  from pop_loop_result[OF p dist] obtain n where n: "popped_ok u s s' n" by blast
  then have nl: "n \<le> length (que s)" and q': "que s' = take n (que s)"
    and same: "assings s' = assings s" "watchers s' = watchers s"
      "length (levels s') = length (levels s)" "length (reasons s') = length (reasons s)"
    and keep: "\<And>v. v \<notin> vidx ` set (drop n (que s)) \<Longrightarrow>
          levels s' ! v = levels s ! v \<and> reasons s' ! v = reasons s ! v"
    and gone: "\<And>l. l \<in> set (drop n (que s)) \<Longrightarrow> opt_gt (levels s ! vidx l) u \<and>
          levels s' ! vidx l = None \<and> reasons s' ! vidx l = None"
    and stop: "n > 0 \<Longrightarrow> \<not> opt_gt (levels s ! vidx (que s ! (n - 1))) u"
    by (simp_all add: popped_ok_def)
  have srt: "sorted (map (level_of s) (que s))"
    using assms by (auto simp: trail_inv_def dest: stair_sorted)
  have hi: "\<forall>l \<in> set (drop n (que s)). level_of s l > u"
  proof
    fix l assume l: "l \<in> set (drop n (que s))"
    then have "l \<in> set (que s)" by (rule in_set_dropD)
    from trail_inv_in_range[OF assms this] gone[OF l] show "level_of s l > u"
      by (simp add: opt_gt_level_of)
  qed
  have keep_take: "\<And>l. l \<in> set (take n (que s)) \<Longrightarrow>
       levels s' ! vidx l = levels s ! vidx l \<and> reasons s' ! vidx l = reasons s ! vidx l"
  proof -
    fix l assume l: "l \<in> set (take n (que s))"
    have "vidx l \<notin> vidx ` set (drop n (que s))"
    proof
      assume "vidx l \<in> vidx ` set (drop n (que s))"
      then obtain b where "b \<in> set (drop n (que s))" "vidx l = vidx b" by (rule imageE)
      with distinct_take_drop_disjoint[OF dist l, of b] show False by simp
    qed
    from keep[OF this] show "levels s' ! vidx l = levels s ! vidx l \<and> reasons s' ! vidx l = reasons s ! vidx l" .
  qed
  have lo: "\<forall>l \<in> set (take n (que s)). level_of s l \<le> u \<and> level_of s' l = level_of s l"
  proof
    fix l assume l: "l \<in> set (take n (que s))"
    then obtain i where i: "i < n" "i < length (que s)" "l = que s ! i"
      using nl by (auto simp: in_set_conv_nth)
    then have n0: "n > 0" by simp
    have "que s ! (n - 1) \<in> set (que s)" using n0 nl by simp
    from trail_inv_in_range[OF assms this] stop[OF n0]
    have top: "level_of s (que s ! (n - 1)) \<le> u" by (simp add: opt_gt_level_of)
    have "map (level_of s) (que s) ! i \<le> map (level_of s) (que s) ! (n - 1)"
      using srt i n0 nl by (intro sorted_nth_mono) auto
    then have "level_of s l \<le> level_of s (que s ! (n - 1))" using i n0 nl by simp
    moreover have "level_of s' l = level_of s l" using keep_take[OF l] by (simp add: level_of_def)
    ultimately show "level_of s l \<le> u \<and> level_of s' l = level_of s l" using top by simp
  qed
  have sets: "set (que s) = set (take n (que s)) \<union> set (drop n (que s))"
    by (metis append_take_drop_id set_append)
  have inv': "trail_inv s'"
    unfolding trail_inv_def
  proof (intro conjI)
    show "length (levels s') = length (assings s')" "length (reasons s') = length (assings s')"
      "length (watchers s') = 2 * length (assings s')"
      using assms same by (simp_all add: trail_inv_def)
    show "\<forall>l\<in>set (que s'). vidx l < length (assings s') \<and> assings s' ! vidx l = pos l"
      using assms same q' by (auto simp: trail_inv_def dest: in_set_takeD)
    show "distinct (map vidx (que s'))"
      using dist q' by (simp flip: take_map)
    show "\<forall>v<length (assings s'). (levels s' ! v \<noteq> None) = (v \<in> vidx ` set (que s'))"
    proof (intro allI impI)
      fix v assume v: "v < length (assings s')"
      show "(levels s' ! v \<noteq> None) = (v \<in> vidx ` set (que s'))"
      proof (cases "v \<in> vidx ` set (drop n (que s))")
        case True
        then obtain b where b: "b \<in> set (drop n (que s))" "v = vidx b" by auto
        have "v \<notin> vidx ` set (take n (que s))"
        proof
          assume "v \<in> vidx ` set (take n (que s))"
          then obtain a where "a \<in> set (take n (que s))" "v = vidx a" by auto
          with distinct_take_drop_disjoint[OF dist this(1) b(1)] b(2) show False by simp
        qed
        with gone[OF b(1)] b(2) q' show ?thesis by simp
      next
        case False
        from keep[OF False] have "levels s' ! v = levels s ! v" by simp
        moreover have "(levels s ! v \<noteq> None) = (v \<in> vidx ` set (que s))"
          using assms v same by (simp add: trail_inv_def)
        ultimately show ?thesis using False q' sets by auto
      qed
    qed
    show "\<forall>v<length (assings s'). levels s' ! v = None \<longrightarrow> reasons s' ! v = None"
    proof (intro allI impI)
      fix v assume v: "v < length (assings s')" and none: "levels s' ! v = None"
      show "reasons s' ! v = None"
      proof (cases "v \<in> vidx ` set (drop n (que s))")
        case True
        then obtain b where b: "b \<in> set (drop n (que s))" "v = vidx b" by auto
        with gone[OF b(1)] show ?thesis by simp
      next
        case False
        from keep[OF False] none have "levels s ! v = None" "reasons s' ! v = reasons s ! v" by simp_all
        with assms v same show ?thesis by (simp add: trail_inv_def)
      qed
    qed
    have "map (level_of s') (que s') = take n (map (level_of s) (que s))"
      using lo q' by (simp add: take_map)
    then show "stair 0 (map (level_of s') (que s'))"
      using assms by (simp add: trail_inv_def stair_take)
  qed
  from p n inv' lo hi show ?thesis by blast
qed

lemma pop_queue_until_trail:
  assumes "trail_inv s" "que s \<noteq> []"
  shows "\<exists>s1 n. pop_loop u s = Inr s1 \<and> popped_ok u s s1 n \<and> trail_inv s1 \<and>
           (\<forall>l \<in> set (take n (que s)). level_of s l \<le> u \<and> level_of s1 l = level_of s l) \<and>
           (\<forall>l \<in> set (drop n (que s)). level_of s l > u) \<and>
           pop_queue_until u s = Inr (s1\<lparr>que_head := length (que s1) - 1\<rparr>)"
proof -
  from pop_loop_trail[OF assms(1), of u] obtain s1 n where
    *: "pop_loop u s = Inr s1" "popped_ok u s s1 n" "trail_inv s1"
     "\<forall>l \<in> set (take n (que s)). level_of s l \<le> u \<and> level_of s1 l = level_of s l"
     "\<forall>l \<in> set (drop n (que s)). level_of s l > u" by blast
  have "pop_queue_until u s = Inr (s1\<lparr>que_head := length (que s1) - 1\<rparr>)"
    using assms(2) *(1) by (simp add: pop_queue_until_def)
  with * show ?thesis by blast
qed

lemma trail_inv_que_head: "trail_inv (s\<lparr>que_head := n\<rparr>) = trail_inv s"
  by (simp add: trail_inv_def level_of_def cong: map_cong)

lemma trail_inv_pop_queue_until:
  assumes "trail_inv s" "pop_queue_until u s = Inr s'"
  shows "trail_inv s'"
proof -
  from assms(2) have ne: "que s \<noteq> []" by (auto simp: pop_queue_until_def split: if_splits)
  from pop_queue_until_trail[OF assms(1) ne, of u] assms(2) show ?thesis
    by (auto simp: trail_inv_que_head)
qed

lemma trail_inv_assigned:
  assumes "trail_inv s" "v < length (levels s)" "levels s ! v = Some x"
  shows "\<exists>l \<in> set (que s). vidx l = v"
proof -
  from assms have "v < length (assings s)" "levels s ! v \<noteq> None" by (simp_all add: trail_inv_def)
  with assms(1) have "v \<in> vidx ` set (que s)" unfolding trail_inv_def by blast
  then show ?thesis by auto
qed

lemma top_level_que_head [simp]: "top_level (s\<lparr>que_head := n\<rparr>) = top_level s"
  by (simp add: top_level_def level_of_def)

lemma backjump_level:
  assumes "trail_inv s" "0 \<le> b" "b < top_level s"
  shows "\<exists>s'. pop_queue_until b s = Inr s' \<and> trail_inv s' \<and> top_level s' = b \<and>
           (\<forall>v < length (levels s'). \<forall>x. levels s' ! v = Some x \<longrightarrow> x \<le> b)"
proof -
  from assms(2,3) have ne: "que s \<noteq> []" by (auto simp: top_level_def split: if_splits)
  from pop_queue_until_trail[OF assms(1) ne, of b] obtain s1 n where
    p: "popped_ok b s s1 n" and inv1: "trail_inv s1"
    and lo: "\<And>l. l \<in> set (take n (que s)) \<Longrightarrow> level_of s l \<le> b \<and> level_of s1 l = level_of s l"
    and hi: "\<And>l. l \<in> set (drop n (que s)) \<Longrightarrow> level_of s l > b"
    and r: "pop_queue_until b s = Inr (s1\<lparr>que_head := length (que s1) - 1\<rparr>)" by blast
  from p have nl: "n \<le> length (que s)" and q1: "que s1 = take n (que s)"
    by (simp_all add: popped_ok_def)
  have st: "stair 0 (map (level_of s) (que s))" using assms(1) by (simp add: trail_inv_def)
  have n_lt: "n < length (que s)"
  proof (rule ccontr)
    assume "\<not> n < length (que s)"
    with nl have "n = length (que s)" by simp
    with lo[of "last (que s)"] ne have "top_level s \<le> b" by (simp add: top_level_def)
    with assms(3) show False by simp
  qed
  then have qn: "que s ! n \<in> set (drop n (que s))"
    by (metis Cons_nth_drop_Suc list.set_intros(1))
  have top: "top_level s1 = b"
  proof (cases n)
    case 0
    from stair_hd[OF st] ne have "level_of s (que s ! 0) \<le> 1" by simp
    with hi[OF qn] 0 assms(2) have "b = 0" by simp
    with 0 q1 show ?thesis by (simp add: top_level_def)
  next
    case (Suc m)
    with n_lt have m: "Suc m < length (map (level_of s) (que s))" by simp
    from stair_step[OF st m] n_lt Suc
    have "level_of s (que s ! Suc m) \<le> level_of s (que s ! m) + 1" by simp
    with hi[OF qn] Suc have ge: "b \<le> level_of s (que s ! m)" by simp
    have lastq: "last (que s1) = que s ! m" using q1 Suc n_lt
      by (simp add: take_Suc_conv_app_nth)
    have "que s ! m \<in> set (take n (que s))" using Suc n_lt
      by (auto simp: in_set_conv_nth intro!: exI[of _ m])
    from lo[OF this] ge have "level_of s1 (que s ! m) = b" by simp
    moreover have "que s1 \<noteq> []" using q1 Suc ne by simp
    ultimately show ?thesis using lastq by (simp add: top_level_def)
  qed
  have bound: "\<forall>v < length (levels s1). \<forall>x. levels s1 ! v = Some x \<longrightarrow> x \<le> b"
  proof (intro allI impI)
    fix v x assume v: "v < length (levels s1)" and x: "levels s1 ! v = Some x"
    from trail_inv_assigned[OF inv1 v x] obtain l where l: "l \<in> set (que s1)" "v = vidx l" by auto
    from lo[of l] l(1) q1 have "level_of s1 l \<le> b" by simp
    with x l(2) show "x \<le> b" by (simp add: level_of_def)
  qed
  let ?s' = "s1\<lparr>que_head := length (que s1) - 1\<rparr>"
  have "trail_inv ?s'" using inv1 by (simp add: trail_inv_que_head)
  moreover have "top_level ?s' = b" using top by simp
  moreover have "\<forall>v < length (levels ?s'). \<forall>x. levels ?s' ! v = Some x \<longrightarrow> x \<le> b"
    using bound by simp
  ultimately show ?thesis using r by blast
qed

lemma pop_exactly:
  assumes "trail_inv s" "que s \<noteq> []"
  shows "\<exists>s'. pop_queue_until u s = Inr s' \<and>
           que s' = filter (\<lambda>l. \<not> opt_gt (levels s ! vidx l) u) (que s) \<and>
           (\<forall>l \<in> set (que s). opt_gt (levels s ! vidx l) u \<longrightarrow>
              levels s' ! vidx l = None \<and> reasons s' ! vidx l = None \<and>
              eval_lit l s' = Inr LitBool_Undefine) \<and>
           (\<forall>l \<in> set (que s). \<not> opt_gt (levels s ! vidx l) u \<longrightarrow>
              levels s' ! vidx l = levels s ! vidx l \<and> reasons s' ! vidx l = reasons s ! vidx l) \<and>
           assings s' = assings s \<and> que_head s' = length (que s') - 1"
proof -
  from pop_queue_until_trail[OF assms, of u] obtain s1 n where
    p: "popped_ok u s s1 n" and inv1: "trail_inv s1"
    and lo: "\<And>l. l \<in> set (take n (que s)) \<Longrightarrow> level_of s l \<le> u \<and> level_of s1 l = level_of s l"
    and hi: "\<And>l. l \<in> set (drop n (que s)) \<Longrightarrow> level_of s l > u"
    and r: "pop_queue_until u s = Inr (s1\<lparr>que_head := length (que s1) - 1\<rparr>)" by blast
  let ?s' = "s1\<lparr>que_head := length (que s1) - 1\<rparr>"
  let ?P = "\<lambda>l. \<not> opt_gt (levels s ! vidx l) u"
  from p have q1: "que s1 = take n (que s)" and a: "assings s1 = assings s"
    and len: "length (levels s1) = length (levels s)"
    and keep: "\<And>v. v \<notin> vidx ` set (drop n (que s)) \<Longrightarrow>
          levels s1 ! v = levels s ! v \<and> reasons s1 ! v = reasons s ! v"
    and gone: "\<And>l. l \<in> set (drop n (que s)) \<Longrightarrow>
          levels s1 ! vidx l = None \<and> reasons s1 ! vidx l = None"
    by (simp_all add: popped_ok_def)
  have gt: "\<And>l. l \<in> set (que s) \<Longrightarrow> opt_gt (levels s ! vidx l) u \<longleftrightarrow> level_of s l > u"
    using trail_inv_in_range[OF assms(1)] by (simp add: opt_gt_level_of)
  have sets: "set (que s) = set (take n (que s)) \<union> set (drop n (que s))"
    by (metis append_take_drop_id set_append)
  have in_drop: "\<And>l. l \<in> set (que s) \<Longrightarrow> opt_gt (levels s ! vidx l) u \<Longrightarrow> l \<in> set (drop n (que s))"
    using lo gt sets by fastforce
  have in_take: "\<And>l. l \<in> set (que s) \<Longrightarrow> \<not> opt_gt (levels s ! vidx l) u \<Longrightarrow> l \<in> set (take n (que s))"
    using hi gt sets by fastforce
  have "\<And>l. l \<in> set (take n (que s)) \<Longrightarrow> ?P l"
    using lo gt[OF in_set_takeD] by fastforce
  then have f1: "filter ?P (take n (que s)) = take n (que s)"
    by (simp add: filter_id_conv)
  have "\<And>l. l \<in> set (drop n (que s)) \<Longrightarrow> \<not> ?P l"
    using hi gt[OF in_set_dropD] by fastforce
  then have f2: "filter ?P (drop n (que s)) = []"
    by (simp add: filter_empty_conv)
  have "filter ?P (que s) = filter ?P (take n (que s) @ drop n (que s))" by simp
  also have "\<dots> = take n (que s)" unfolding filter_append f1 f2 by simp
  finally have c1: "que ?s' = filter ?P (que s)" using q1 by simp
  have c2: "\<forall>l \<in> set (que s). opt_gt (levels s ! vidx l) u \<longrightarrow>
              levels ?s' ! vidx l = None \<and> reasons ?s' ! vidx l = None \<and>
              eval_lit l ?s' = Inr LitBool_Undefine"
  proof (intro ballI impI)
    fix l assume l: "l \<in> set (que s)" "opt_gt (levels s ! vidx l) u"
    from gone[OF in_drop[OF l]] trail_inv_in_range[OF assms(1) l(1)] len
    show "levels ?s' ! vidx l = None \<and> reasons ?s' ! vidx l = None \<and>
              eval_lit l ?s' = Inr LitBool_Undefine"
      by (simp add: eval_lit_def)
  qed
  have dist: "distinct (map vidx (que s))" using assms(1) by (simp add: trail_inv_def)
  have c3: "\<forall>l \<in> set (que s). \<not> opt_gt (levels s ! vidx l) u \<longrightarrow>
              levels ?s' ! vidx l = levels s ! vidx l \<and> reasons ?s' ! vidx l = reasons s ! vidx l"
  proof (intro ballI impI)
    fix l assume l: "l \<in> set (que s)" "\<not> opt_gt (levels s ! vidx l) u"
    have "vidx l \<notin> vidx ` set (drop n (que s))"
    proof
      assume "vidx l \<in> vidx ` set (drop n (que s))"
      then obtain b where "b \<in> set (drop n (que s))" "vidx l = vidx b" by (rule imageE)
      with distinct_take_drop_disjoint[OF dist in_take[OF l], of b] show False by simp
    qed
    from keep[OF this]
    show "levels ?s' ! vidx l = levels s ! vidx l \<and> reasons ?s' ! vidx l = reasons s ! vidx l"
      by simp
  qed
  have "assings ?s' = assings s \<and> que_head ?s' = length (que ?s') - 1" using a by simp
  with r c1 c2 c3 show ?thesis by blast
qed

lemma pop_loop_stop:
  assumes "que s = [] \<or> (vidx (last (que s)) < length (levels s) \<and>
             \<not> opt_gt (levels s ! vidx (last (que s))) u)"
  shows "pop_loop u s = Inr s"
  using assms by (subst pop_loop.simps) (auto simp: Let_def)

lemma decide_undo:
  assumes "trail_inv s" "vidx l < length (levels s)" "levels s ! vidx l = None"
  shows "ebind (new_decision l r s) (pop_queue_until (top_level s))
         = Inr (s\<lparr>assings := (assings s)[vidx l := pos l], que_head := length (que s) - 1\<rparr>)"
proof -
  define d where "d = top_level s"
  define s1 where "s1 = assign l r (d + 1) s"
  define s3 where "s3 = s\<lparr>assings := (assings s)[vidx l := pos l]\<rparr>"
  have nd: "new_decision l r s = Inr s1"
    using assms by (simp add: new_decision_Inr s1_def d_def)
  have rl: "vidx l < length (reasons s)" "reasons s ! vidx l = None"
    using assms by (simp_all add: trail_inv_def)
  have lv: "(levels s)[vidx l := None] = levels s" "(reasons s)[vidx l := None] = reasons s"
    using assms(3) rl(2) by (simp_all add: list_update_same_conv assms(2) rl(1))
  have "pop_loop d s1 = pop_loop d (s1\<lparr>reasons := (reasons s1)[vidx l := None],
                     levels := (levels s1)[vidx l := None],
                     que := butlast (que s1)\<rparr>)"
    using assms(2) rl(1) by (subst pop_loop.simps) (simp add: s1_def Let_def opt_gt_def)
  also have "s1\<lparr>reasons := (reasons s1)[vidx l := None],
                     levels := (levels s1)[vidx l := None],
                     que := butlast (que s1)\<rparr> = s3"
    by (simp add: s1_def s3_def assign_def lv)
  also have "pop_loop d s3 = Inr s3"
  proof (rule pop_loop_stop)
    show "que s3 = [] \<or> (vidx (last (que s3)) < length (levels s3) \<and>
             \<not> opt_gt (levels s3 ! vidx (last (que s3))) d)"
    proof (cases "que s = []")
      case True then show ?thesis by (simp add: s3_def)
    next
      case False
      then have "last (que s) \<in> set (que s)" by simp
      from trail_inv_in_range[OF assms(1) this] False show ?thesis
        by (simp add: s3_def d_def top_level_def opt_gt_level_of)
    qed
  qed
  finally have "pop_loop d s1 = Inr s3" .
  then have "pop_queue_until d s1 = Inr (s3\<lparr>que_head := length (que s) - 1\<rparr>)"
    by (simp add: pop_queue_until_def s1_def s3_def)
  with nd show ?thesis by (simp add: d_def s3_def)
qed

lemma enqueue_undo:
  assumes "trail_inv s" "vidx l < length (levels s)" "levels s ! vidx l = None"
  shows "ebind (enqueue l r s) (pop_queue_until (top_level s))
         = Inr ((assign l r (top_level s) s)\<lparr>que_head := length (que s)\<rparr>)"
proof -
  define s1 where "s1 = assign l r (top_level s) s"
  have e: "enqueue l r s = Inr s1" using assms by (simp add: enqueue_Inr s1_def)
  have "pop_loop (top_level s) s1 = Inr s1"
    using assms(2) by (intro pop_loop_stop) (simp add: s1_def opt_gt_def)
  then have "pop_queue_until (top_level s) s1 = Inr (s1\<lparr>que_head := length (que s)\<rparr>)"
    by (simp add: pop_queue_until_def s1_def)
  with e show ?thesis by (simp add: s1_def)
qed

section \<open>Propagation keeps the trail\<close>

lemma examine_cases [consumes 1, case_names satisfied moved conflict unit]:
  assumes "examine lit i cr s = Inr (r, s')"
  obtains
    (satisfied) "eval_lit (heap s ! cr ! 0) s = Inr LitBool_True" "r = Next_clause (i + 1)" "s' = s"
  | (moved) k e0 where "eval_lit (heap s ! cr ! 0) s = Inr e0" "e0 \<noteq> LitBool_True"
      "find_watch (drop 2 (heap s ! cr)) 2 s = Inr (Some k)"
      "move_watch lit i cr k s = Inr s'" "r = Next_clause i"
  | (conflict) "eval_lit (heap s ! cr ! 0) s = Inr LitBool_False"
      "find_watch (drop 2 (heap s ! cr)) 2 s = Inr None"
      "r = Conflict cr" "s' = s\<lparr>que_head := length (que s)\<rparr>"
  | (unit) "eval_lit (heap s ! cr ! 0) s = Inr LitBool_Undefine"
      "find_watch (drop 2 (heap s ! cr)) 2 s = Inr None"
      "enqueue (heap s ! cr ! 0) (Some cr) s = Inr s'" "r = Next_clause (i + 1)"
proof -
  from assms obtain e0 where e0: "eval_lit (heap s ! cr ! 0) s = Inr e0"
    by (auto simp: examine_def Let_def ebind_Inr_iff)
  show ?thesis
  proof (cases "e0 = LitBool_True")
    case True
    with assms e0 show ?thesis by (intro satisfied) (auto simp: examine_def Let_def)
  next
    case False
    with assms e0 obtain found where f: "find_watch (drop 2 (heap s ! cr)) 2 s = Inr found"
      by (auto simp: examine_def Let_def ebind_Inr_iff)
    show ?thesis
    proof (cases found)
      case (Some k)
      with assms e0 False f have "move_watch lit i cr k s = Inr s'" "r = Next_clause i"
        by (auto simp: examine_def Let_def ebind_Inr_iff)
      with e0 False f Some show ?thesis by (intro moved) auto
    next
      case None
      show ?thesis
      proof (cases "e0 = LitBool_False")
        case True
        with assms e0 f None have "r = Conflict cr" "s' = s\<lparr>que_head := length (que s)\<rparr>"
          by (auto simp: examine_def Let_def)
        with e0 True f None show ?thesis by (intro conflict) auto
      next
        case nf: False
        with False have u: "e0 = LitBool_Undefine" by (cases e0) auto
        with assms e0 f None have "enqueue (heap s ! cr ! 0) (Some cr) s = Inr s'" "r = Next_clause (i + 1)"
          by (auto simp: examine_def Let_def ebind_Inr_iff)
        with e0 u f None show ?thesis by (intro unit) auto
      qed
    qed
  qed
qed

lemma visit_cases [consumes 1]:
  assumes "visit lit i s = Inr (r, s')"
  obtains cr s1 where "cr = watchers s ! lidx lit ! i" "cr < length (heap s)"
    "1 < length (heap s ! cr)"
    "heap s ! cr ! 0 = lit_not lit \<or> heap s ! cr ! 1 = lit_not lit"
    "s1 = normalize_watch (lit_not lit) cr s" "heap s1 ! cr ! 1 = lit_not lit"
    "eval_lit (lit_not lit) s = Inr LitBool_False"
    "examine lit i cr s1 = Inr (r, s')"
proof -
  define cr where "cr = watchers s ! lidx lit ! i"
  define s1 where "s1 = normalize_watch (lit_not lit) cr s"
  from assms have "cr < length (heap s)" "1 < length (heap s ! cr)"
    "heap s ! cr ! 0 = lit_not lit \<or> heap s ! cr ! 1 = lit_not lit"
    "heap s1 ! cr ! 1 = lit_not lit"
    "eval_lit (heap s1 ! cr ! 1) s1 = Inr LitBool_False"
    "examine lit i cr s1 = Inr (r, s')"
    unfolding visit_def Let_def cr_def[symmetric] s1_def[symmetric]
    by (auto simp: ebind_Inr_iff split: if_splits)
  then show ?thesis using that[of cr s1] by (simp add: cr_def s1_def)
qed

lemma watch_loop_invariant:
  assumes "watch_loop lit i s = Inr (r, s')" "P s"
    and "\<And>i s r s'. P s \<Longrightarrow> lidx lit < length (watchers s) \<Longrightarrow>
           i < length (watchers s ! lidx lit) \<Longrightarrow> visit lit i s = Inr (r, s') \<Longrightarrow> P s'"
  shows "P s'"
  using assms
proof (induction lit i s rule: watch_loop.induct)
  case (1 lit i s)
  note step = "1.prems"(3)
  show ?case
  proof (cases "lidx lit < length (watchers s) \<and> i < length (watchers s ! lidx lit)")
    case False
    with "1.prems"(1,2) show ?thesis by (auto split: if_splits)
  next
    case True
    from "1.prems"(1) True obtain vr s1 where v: "visit lit i s = Inr (vr, s1)"
      by (cases "visit lit i s") auto
    from True have g: "lidx lit < length (watchers s)" "i < length (watchers s ! lidx lit)"
      by simp_all
    from step[OF "1.prems"(2) g v] have P1: "P s1" .
    show ?thesis
    proof (cases vr)
      case (Conflict cr)
      with "1.prems"(1) True v have "s' = s1" by simp
      with P1 show ?thesis by simp
    next
      case (Next_clause i')
      with "1.prems"(1) True v have w: "watch_loop lit i' s1 = Inr (r, s')" by simp
      from True have c: "\<not> \<not> lidx lit < length (watchers s)"
        "i < length (watchers s ! lidx lit)" by simp_all
      show ?thesis by (rule "1.IH"[OF c(1,2) v refl Next_clause w P1]) (rule step)
    qed
  qed
qed

lemma propagate_invariant:
  assumes "propagate s = Inr (r, s')" "P s"
    and head: "\<And>s n. P s \<Longrightarrow> P (s\<lparr>que_head := n\<rparr>)"
    and step: "\<And>lit i s r s'. P s \<Longrightarrow> lidx lit < length (watchers s) \<Longrightarrow>
           i < length (watchers s ! lidx lit) \<Longrightarrow> visit lit i s = Inr (r, s') \<Longrightarrow> P s'"
  shows "P s'"
  using assms(1,2)
proof (induction s rule: propagate.induct)
  case (1 s)
  show ?case
  proof (cases "que_head s < length (que s)")
    case False
    with "1.prems" show ?thesis by simp
  next
    case True
    define lit where "lit = que s ! que_head s"
    define s1 where "s1 = s\<lparr>que_head := que_head s + 1\<rparr>"
    from "1.prems"(1) True have rng: "lidx lit < length (watchers s1)"
      by (auto simp: Let_def lit_def s1_def split: if_splits)
    from "1.prems"(1) True rng obtain c s2 where w: "watch_loop lit 0 s1 = Inr (c, s2)"
      by (cases "watch_loop lit 0 s1") (auto simp: Let_def lit_def s1_def)
    have "P s1" unfolding s1_def by (rule head[OF "1.prems"(2)])
    then have P2: "P s2" by (rule watch_loop_invariant[where P=P, OF w]) (rule step)
    show ?thesis
    proof (cases c)
      case (Some cr)
      with "1.prems"(1) True rng w have "s' = s2" by (simp add: Let_def lit_def s1_def)
      with P2 show ?thesis by simp
    next
      case None
      with "1.prems"(1) True rng w have p: "propagate s2 = Inr (r, s')"
        by (simp add: Let_def lit_def s1_def)
      from "1.IH"[OF True lit_def s1_def _ w refl _ p P2] rng None show ?thesis by simp
    qed
  qed
qed

lemma push_watch_fields:
  assumes "push_watch l cr s = Inr s'"
  shows "levels s' = levels s" "que s' = que s" "que_head s' = que_head s"
    "assings s' = assings s" "reasons s' = reasons s" "heap s' = heap s"
    "clauses s' = clauses s" "learnts s' = learnts s"
    "length (watchers s') = length (watchers s)"
  using assms by (auto simp: push_watch_def split: if_splits)

lemma move_watch_watchers_length:
  "move_watch lit i cr k s = Inr s' \<Longrightarrow> length (watchers s') = length (watchers s)"
  by (auto simp: move_watch_def push_watch_def Let_def split: if_splits)

lemma trail_inv_examine:
  assumes "trail_inv s" "examine lit i cr s = Inr (r, s')"
  shows "trail_inv s'"
  using assms(2)
proof (cases rule: examine_cases)
  case satisfied
  with assms(1) show ?thesis by simp
next
  case (moved k e0)
  from move_watch_fields[OF moved(4)] move_watch_watchers_length[OF moved(4)]
  show ?thesis by (intro trail_inv_frame[OF assms(1)]) simp_all
next
  case conflict
  with assms(1) show ?thesis by (simp add: trail_inv_que_head)
next
  case unit
  from trail_inv_enqueue[OF assms(1) unit(3)] show ?thesis .
qed

lemma trail_inv_normalize_watch [simp]: "trail_inv (normalize_watch n cr s) = trail_inv s"
  by (simp add: trail_inv_def level_of_def cong: map_cong)

lemma trail_inv_visit:
  assumes "trail_inv s" "visit lit i s = Inr (r, s')"
  shows "trail_inv s'"
  using assms(2)
proof (cases rule: visit_cases)
  case (1 cr s1)
  from 1(5) assms(1) have "trail_inv s1" by simp
  from trail_inv_examine[OF this 1(8)] show ?thesis .
qed

lemma trail_inv_propagate:
  assumes "trail_inv s" "propagate s = Inr (r, s')"
  shows "trail_inv s'"
proof (rule propagate_invariant[where P = trail_inv, OF assms(2,1)])
  show "\<And>s n. trail_inv s \<Longrightarrow> trail_inv (s\<lparr>que_head := n\<rparr>)"
    by (simp add: trail_inv_que_head)
  show "\<And>lit i s r s'. trail_inv s \<Longrightarrow> lidx lit < length (watchers s) \<Longrightarrow>
           i < length (watchers s ! lidx lit) \<Longrightarrow> visit lit i s = Inr (r, s') \<Longrightarrow> trail_inv s'"
    by (rule trail_inv_visit)
qed

lemma attach_clause_fields:
  assumes "attach_clause cr learnt s = Inr s'"
  shows "levels s' = levels s" "que s' = que s" "que_head s' = que_head s"
    "assings s' = assings s" "reasons s' = reasons s" "heap s' = heap s"
    "length (watchers s') = length (watchers s)"
proof -
  from assms have g: "cr < length (heap s)" "1 < length (heap s ! cr)"
    by (simp_all add: attach_clause_def Let_def split: if_splits)
  with assms have "ebind (push_watch (lit_not (heap s ! cr ! 0)) cr s) (\<lambda>s1.
             ebind (push_watch (lit_not (heap s ! cr ! 1)) cr s1) (\<lambda>s2.
               Inr (if learnt then s2\<lparr>clauses := clauses s2 @ [cr], learnts := learnts s2 @ [cr]\<rparr>
                    else s2\<lparr>clauses := clauses s2 @ [cr]\<rparr>))) = Inr s'"
    by (simp add: attach_clause_def Let_def)
  then obtain s1 where a: "push_watch (lit_not (heap s ! cr ! 0)) cr s = Inr s1"
    and "ebind (push_watch (lit_not (heap s ! cr ! 1)) cr s1) (\<lambda>s2.
               Inr (if learnt then s2\<lparr>clauses := clauses s2 @ [cr], learnts := learnts s2 @ [cr]\<rparr>
                    else s2\<lparr>clauses := clauses s2 @ [cr]\<rparr>)) = Inr s'"
    unfolding ebind_Inr_iff by blast
  then obtain s2 where b: "push_watch (lit_not (heap s ! cr ! 1)) cr s1 = Inr s2"
    and c: "s' = (if learnt then s2\<lparr>clauses := clauses s2 @ [cr], learnts := learnts s2 @ [cr]\<rparr>
                 else s2\<lparr>clauses := clauses s2 @ [cr]\<rparr>)"
    unfolding ebind_Inr_iff by auto
  from push_watch_fields[OF a] push_watch_fields[OF b] c
  show "levels s' = levels s" "que s' = que s" "que_head s' = que_head s"
    "assings s' = assings s" "reasons s' = reasons s" "heap s' = heap s"
    "length (watchers s') = length (watchers s)"
    by (simp_all split: if_splits)
qed

lemma trail_inv_attach_clause:
  assumes "trail_inv s" "attach_clause cr learnt s = Inr s'"
  shows "trail_inv s'"
  using attach_clause_fields[OF assms(2)]
  by (intro trail_inv_frame[OF assms(1)]) simp_all

lemma trail_inv_heap [simp]: "trail_inv (s\<lparr>heap := h\<rparr>) = trail_inv s"
  by (simp add: trail_inv_def level_of_def cong: map_cong)

lemma trail_inv_add_clause:
  assumes "trail_inv s" "add_clause c s = Inr s'"
  shows "trail_inv s'"
proof (cases "length c = 1")
  case True
  with assms(2) have "enqueue (c ! 0) None (grow c s) = Inr s'" by (simp add: add_clause_def Let_def)
  from trail_inv_enqueue[OF trail_inv_grow[OF assms(1)] this] show ?thesis .
next
  case False
  with assms(2) have "attach_clause (length (heap (grow c s))) False
      ((grow c s)\<lparr>heap := heap (grow c s) @ [c]\<rparr>) = Inr s'"
    by (simp add: add_clause_def make_shared_def Let_def)
  from trail_inv_attach_clause[OF _ this] trail_inv_grow[OF assms(1)] show ?thesis by simp
qed

lemma trail_inv_learn:
  assumes "trail_inv s" "learn c s = Inr s'"
  shows "trail_inv s'"
proof (cases "length c = 1")
  case True
  with assms(2) have "enqueue (c ! 0) None s = Inr s'" by (simp add: learn_def)
  from trail_inv_enqueue[OF assms(1) this] show ?thesis .
next
  case False
  with assms(2) obtain s2 where a: "attach_clause (length (heap s)) True (s\<lparr>heap := heap s @ [c]\<rparr>) = Inr s2"
    and e: "enqueue (c ! 0) (Some (length (heap s))) s2 = Inr s'"
    by (auto simp: learn_def make_shared_def ebind_Inr_iff)
  from trail_inv_attach_clause[OF _ a] assms(1) have "trail_inv s2" by simp
  from trail_inv_enqueue[OF this e] show ?thesis .
qed

lemma trail_inv_on_fixpoint:
  assumes "trail_inv s" "on_fixpoint s = Inr (r, s')"
  shows "trail_inv s'"
proof -
  from assms(2) obtain nxt where n: "first_undefined [0..<length (assings s)] s = Inr nxt"
    by (auto simp: on_fixpoint_def ebind_Inr_iff)
  show ?thesis
  proof (cases nxt)
    case None
    with assms n show ?thesis by (simp add: on_fixpoint_def)
  next
    case (Some l)
    with assms(2) n have "new_decision l None s = Inr s'"
      by (auto simp: on_fixpoint_def ebind_Inr_iff)
    from trail_inv_new_decision[OF assms(1) this] show ?thesis .
  qed
qed

lemma reachable_trail_inv: "reachable s \<Longrightarrow> trail_inv s"
proof (induction rule: reachable.induct)
  case (init variable_num)
  show ?case by (rule trail_inv_Solver)
next
  case (add s clause s')
  then show ?case by (metis trail_inv_add_clause)
next
  case (propagated s conflict s')
  then show ?case by (metis trail_inv_propagate)
next
  case (decided s s')
  then show ?case by (metis trail_inv_on_fixpoint)
next
  case (backjumped s conflict learnt_clause back_jump_level s')
  then show ?case by (metis trail_inv_pop_queue_until)
next
  case (learnt s conflict learnt_clause back_jump_level s1 s')
  then show ?case by (metis trail_inv_pop_queue_until trail_inv_learn)
qed

section \<open>Properties of the watcher index\<close>

lemma count_list_update:
  "i < length xs \<Longrightarrow>
   count_list (xs[i := y]) x + (if xs ! i = x then 1 else 0)
   = count_list xs x + (if y = x then 1 else 0)"
proof (induction xs arbitrary: i)
  case Nil then show ?case by simp
next
  case (Cons a xs)
  show ?case
  proof (cases i)
    case 0 then show ?thesis by simp
  next
    case (Suc j)
    with Cons.prems have "j < length xs" by simp
    from Cons.IH[OF this] Suc show ?thesis by (auto split: if_splits)
  qed
qed

lemma count_list_swap_pop:
  assumes "i < length w"
  shows "count_list (butlast (w[i := last w])) x + (if w ! i = x then 1 else 0) = count_list w x"
proof -
  from assms have ne: "w \<noteq> []" by auto
  then have w: "w = butlast w @ [last w]" by simp
  have cw: "count_list w x = count_list (butlast w) x + (if last w = x then 1 else 0)"
    by (subst w) (simp del: append_butlast_last_id)
  show ?thesis
  proof (cases "i = length w - 1")
    case True
    then have "w[i := last w] = w" "w ! i = last w"
      using ne by (simp_all add: last_conv_nth list_update_same_conv)
    with cw show ?thesis by simp
  next
    case False
    with assms have i: "i < length (butlast w)" by simp
    have "butlast (w[i := last w]) = (butlast w)[i := last w]"
      using False by (simp add: butlast_list_update)
    moreover have "butlast w ! i = w ! i" using i by (simp add: nth_butlast)
    ultimately show ?thesis using count_list_update[OF i, of "last w" x] cw by simp
  qed
qed

lemma watched_frame:
  "heap s' = heap s \<Longrightarrow> watchers s' = watchers s \<Longrightarrow> watched s' cr = watched s cr"
  by (simp add: watched_def watch_count_def)

lemma watch_inv_frame:
  "heap s' = heap s \<Longrightarrow> watchers s' = watchers s \<Longrightarrow> clauses s' = clauses s \<Longrightarrow>
   watch_inv s' = watch_inv s"
  using watched_frame[of s' s] by (simp add: watch_inv_def)

lemma watch_inv_Solver: "watch_inv (Solver n)"
  by (simp add: watch_inv_def Solver_def)

lemma watched_new_var: "watched s cr \<Longrightarrow> watched (new_var s) cr"
  unfolding watched_def watch_count_def new_var_def lidx_def
  by (auto simp: nth_append less_Suc_eq)

lemma watch_inv_new_var: "watch_inv s \<Longrightarrow> watch_inv (new_var s)"
proof -
  assume a: "watch_inv s"
  have "\<forall>p < length (watchers (new_var s)). set (watchers (new_var s) ! p) \<subseteq> set (clauses (new_var s))"
    using a by (auto simp: watch_inv_def new_var_def nth_append less_Suc_eq)
  moreover have "clauses (new_var s) = clauses s" by (simp add: new_var_def)
  then have "\<forall>cr \<in> set (clauses (new_var s)). watched (new_var s) cr"
    using a watched_new_var by (simp add: watch_inv_def)
  ultimately show ?thesis by (simp add: watch_inv_def)
qed

lemma watch_inv_grow: "watch_inv s \<Longrightarrow> watch_inv (grow c s)"
  unfolding grow_def by (induction c arbitrary: s) (auto simp: watch_inv_new_var)

lemma watch_inv_enqueue: "enqueue l r s = Inr s' \<Longrightarrow> watch_inv s' = watch_inv s"
  by (rule watch_inv_frame) (auto simp: enqueue_def ebind_Inr_iff split: if_splits)

lemma watch_inv_new_decision: "new_decision l r s = Inr s' \<Longrightarrow> watch_inv s' = watch_inv s"
proof -
  assume "new_decision l r s = Inr s'"
  then obtain s1 where e: "enqueue l r s = Inr s1"
    and s': "heap s' = heap s1" "watchers s' = watchers s1" "clauses s' = clauses s1"
    by (auto simp: new_decision_def ebind_Inr_iff split: if_splits option.splits)
  from watch_inv_frame[OF s'] watch_inv_enqueue[OF e] show ?thesis by simp
qed

lemma watch_inv_que_head [simp]: "watch_inv (s\<lparr>que_head := n\<rparr>) = watch_inv s"
  by (rule watch_inv_frame) simp_all

lemma watch_inv_pop_queue_until:
  assumes "pop_queue_until u s = Inr s'" "trail_inv s"
  shows "watch_inv s' = watch_inv s"
proof -
  from assms(1) have ne: "que s \<noteq> []" by (auto simp: pop_queue_until_def split: if_splits)
  from pop_queue_until_trail[OF assms(2) ne, of u] assms(1) obtain s1 n where
    "popped_ok u s s1 n" "s' = s1\<lparr>que_head := length (que s1) - 1\<rparr>" by auto
  then show ?thesis by (intro watch_inv_frame) (simp_all add: popped_ok_def)
qed

lemma push_watch_Inr:
  "push_watch l cr s = Inr s' \<longleftrightarrow>
   lidx l < length (watchers s) \<and>
   s' = s\<lparr>watchers := (watchers s)[lidx l := watchers s ! lidx l @ [cr]]\<rparr>"
  by (auto simp: push_watch_def)

lemma push_watch_count:
  assumes "push_watch l cr s = Inr s'" "lidx p < length (watchers s)"
  shows "watch_count s' c p = watch_count s c p + (if p = l \<and> c = cr then 1 else 0)"
  using assms unfolding push_watch_Inr watch_count_def lidx_def
  by (auto simp: nth_list_update)

lemma push_watch_set:
  assumes "push_watch l cr s = Inr s'" "p < length (watchers s)"
  shows "set (watchers s' ! p) \<subseteq> insert cr (set (watchers s ! p))"
  using assms unfolding push_watch_Inr by (auto simp: nth_list_update)

lemma not_watched_count:
  assumes "\<forall>p < length (watchers s). set (watchers s ! p) \<subseteq> set (clauses s)"
    "cr \<notin> set (clauses s)" "lidx p < length (watchers s)"
  shows "watch_count s cr p = 0"
proof -
  from assms have "cr \<notin> set (watchers s ! lidx p)" by blast
  then show ?thesis by (simp add: watch_count_def)
qed

lemma watch_inv_attach_new:
  assumes "watch_inv s" "attach_clause (length (heap s)) b (s\<lparr>heap := heap s @ [c]\<rparr>) = Inr s'"
  shows "watch_inv s'"
proof -
  define cr where "cr = length (heap s)"
  define s0 where "s0 = s\<lparr>heap := heap s @ [c]\<rparr>"
  have h0: "heap s0 ! cr = c" "cr < length (heap s0)" by (simp_all add: s0_def cr_def)
  from assms(2) have a: "attach_clause cr b s0 = Inr s'" by (simp add: cr_def s0_def)
  then have len: "1 < length c" using h0
    by (simp add: attach_clause_def Let_def split: if_splits)
  with a h0 have "ebind (push_watch (lit_not (c ! 0)) cr s0) (\<lambda>s1.
             ebind (push_watch (lit_not (c ! 1)) cr s1) (\<lambda>s2.
               Inr (if b then s2\<lparr>clauses := clauses s2 @ [cr], learnts := learnts s2 @ [cr]\<rparr>
                    else s2\<lparr>clauses := clauses s2 @ [cr]\<rparr>))) = Inr s'"
    by (simp add: attach_clause_def Let_def)
  then obtain s1 where p1: "push_watch (lit_not (c ! 0)) cr s0 = Inr s1"
    and "ebind (push_watch (lit_not (c ! 1)) cr s1) (\<lambda>s2.
               Inr (if b then s2\<lparr>clauses := clauses s2 @ [cr], learnts := learnts s2 @ [cr]\<rparr>
                    else s2\<lparr>clauses := clauses s2 @ [cr]\<rparr>)) = Inr s'"
    unfolding ebind_Inr_iff by blast
  then obtain s2 where p2: "push_watch (lit_not (c ! 1)) cr s1 = Inr s2"
    and s': "s' = (if b then s2\<lparr>clauses := clauses s2 @ [cr], learnts := learnts s2 @ [cr]\<rparr>
                 else s2\<lparr>clauses := clauses s2 @ [cr]\<rparr>)"
    unfolding ebind_Inr_iff by auto
  note f1 = push_watch_fields[OF p1] and f2 = push_watch_fields[OF p2]
  have r1: "lidx (lit_not (c ! 0)) < length (watchers s)"
    and r2: "lidx (lit_not (c ! 1)) < length (watchers s)"
    using p1 p2 f1(9) by (simp_all add: push_watch_Inr s0_def)
  have wl: "length (watchers s') = length (watchers s)"
    using f1(9) f2(9) by (simp add: s' s0_def)
  have hp: "heap s' = heap s @ [c]" using f1(6) f2(6) by (simp add: s' s0_def)
  have cl: "clauses s' = clauses s @ [cr]" using f1(7) f2(7) by (simp add: s' s0_def)
  have cnt: "\<And>x p. lidx p < length (watchers s) \<Longrightarrow>
     watch_count s' x p = watch_count s x p
        + (if p = lit_not (c ! 0) \<and> x = cr then 1 else 0)
        + (if p = lit_not (c ! 1) \<and> x = cr then 1 else 0)"
  proof -
    fix x p assume p: "lidx p < length (watchers s)"
    have "watch_count s' x p = watch_count s2 x p" by (simp add: s' watch_count_def)
    also have "\<dots> = watch_count s1 x p + (if p = lit_not (c ! 1) \<and> x = cr then 1 else 0)"
      using p f1(9) by (intro push_watch_count[OF p2]) (simp add: s0_def)
    also have "watch_count s1 x p = watch_count s0 x p + (if p = lit_not (c ! 0) \<and> x = cr then 1 else 0)"
      using p by (intro push_watch_count[OF p1]) (simp add: s0_def)
    also have "watch_count s0 x p = watch_count s x p" by (simp add: s0_def watch_count_def)
    finally show "watch_count s' x p = watch_count s x p
        + (if p = lit_not (c ! 0) \<and> x = cr then 1 else 0)
        + (if p = lit_not (c ! 1) \<and> x = cr then 1 else 0)" .
  qed
  have old: "\<And>x. x \<in> set (clauses s) \<Longrightarrow> watched s x" using assms(1) by (simp add: watch_inv_def)
  have sub: "\<forall>p < length (watchers s). set (watchers s ! p) \<subseteq> set (clauses s)"
    using assms(1) by (simp add: watch_inv_def)
  have fresh: "cr \<notin> set (clauses s)"
  proof
    assume "cr \<in> set (clauses s)"
    from old[OF this] show False by (simp add: watched_def cr_def)
  qed
  have w_old: "\<And>x. x \<in> set (clauses s) \<Longrightarrow> watched s' x"
  proof -
    fix x assume x: "x \<in> set (clauses s)"
    from old[OF x] have xl: "x < length (heap s)" by (simp add: watched_def)
    then have xh: "heap s' ! x = heap s ! x" and xn: "x \<noteq> cr"
      by (simp_all add: hp nth_append cr_def)
    from old[OF x] xl xn show "watched s' x"
      unfolding watched_def xh wl by (auto simp: cnt hp)
  qed
  have w_new: "watched s' cr"
    unfolding watched_def wl
    using len r1 r2 not_watched_count[OF sub fresh]
    by (auto simp: cnt hp cr_def)
  have sub': "\<forall>p < length (watchers s'). set (watchers s' ! p) \<subseteq> set (clauses s')"
  proof (intro allI impI)
    fix p assume p: "p < length (watchers s')"
    have "set (watchers s' ! p) = set (watchers s2 ! p)" by (simp add: s')
    also have "\<dots> \<subseteq> insert cr (set (watchers s1 ! p))"
      using p wl f1(9) by (intro push_watch_set[OF p2]) (simp add: s0_def)
    also have "set (watchers s1 ! p) \<subseteq> insert cr (set (watchers s0 ! p))"
      using p wl by (intro push_watch_set[OF p1]) (simp add: s0_def)
    finally have "set (watchers s' ! p) \<subseteq> insert cr (set (watchers s ! p))"
      by (auto simp: s0_def)
    with sub p wl show "set (watchers s' ! p) \<subseteq> set (clauses s')"
      by (auto simp: cl)
  qed
  show ?thesis unfolding watch_inv_def using w_old w_new sub' by (auto simp: cl)
qed

lemma watched_normalize_watch:
  assumes "watched s c"
  shows "watched (normalize_watch n cr s) c"
proof (cases "heap s ! cr ! 0 = n \<and> c = cr")
  case False
  then have "heap (normalize_watch n cr s) ! c = heap s ! c"
    using assms by (auto simp: normalize_watch_def watched_def)
  with assms show ?thesis
    by (simp add: watched_def watch_count_def)
next
  case True
  from assms True have l: "cr < length (heap s)" "1 < length (heap s ! cr)"
    by (simp_all add: watched_def)
  have h: "heap (normalize_watch n cr s) ! cr = swap_elems 0 1 (heap s ! cr)"
    using True l by (simp add: normalize_watch_def)
  have l0: "0 < length (heap s ! cr)" using l(2) by linarith
  have "swap_elems 0 1 (heap s ! cr) ! 0 = heap s ! cr ! 1"
    "swap_elems 0 1 (heap s ! cr) ! 1 = heap s ! cr ! 0"
    using swap_elems_nth[OF l0 l(2), of 0] swap_elems_nth[OF l0 l(2), of 1] by simp_all
  with assms True show ?thesis
    by (simp add: watched_def watch_count_def h)
qed

lemma watch_inv_normalize_watch: "watch_inv s \<Longrightarrow> watch_inv (normalize_watch n cr s)"
  by (simp add: watch_inv_def watched_normalize_watch)

lemma watch_inv_move_watch:
  assumes inv: "watch_inv s" and mv: "move_watch lit i cr k s = Inr s'"
    and rng: "lidx lit < length (watchers s)" "i < length (watchers s ! lidx lit)"
    and cr: "watchers s ! lidx lit ! i = cr"
    and k: "2 \<le> k" "k < length (heap s ! cr)"
    and w1: "heap s ! cr ! 1 = lit_not lit"
  shows "watch_inv s'"
proof -
  define C where "C = heap s ! cr"
  define w where "w = watchers s ! lidx lit"
  define W1 where "W1 = (watchers s)[lidx lit := butlast (w[i := last w])]"
  define l2 where "l2 = lit_not (C ! k)"
  have crin: "cr \<in> set (clauses s)"
    using inv rng cr unfolding watch_inv_def by (metis nth_mem subsetD)
  with inv have wcr: "watched s cr" by (simp add: watch_inv_def)
  then have crl: "cr < length (heap s)" and cl1: "1 < length C" by (simp_all add: watched_def C_def)
  have sw: "swap_elems 1 k C ! 0 = C ! 0" "swap_elems 1 k C ! 1 = C ! k"
    using cl1 k by (simp_all add: swap_elems_nth C_def)
  from mv have p: "push_watch l2 cr (s\<lparr>heap := (heap s)[cr := swap_elems 1 k C], watchers := W1\<rparr>) = Inr s'"
    using crl sw by (simp add: move_watch_def Let_def C_def w_def W1_def l2_def)
  then have l2r: "lidx l2 < length (watchers s)"
    and s': "s' = s\<lparr>heap := (heap s)[cr := swap_elems 1 k C], watchers := W1[lidx l2 := W1 ! lidx l2 @ [cr]]\<rparr>"
    by (simp_all add: push_watch_Inr W1_def)
  have wl: "length (watchers s') = length (watchers s)" by (simp add: s' W1_def)
  have cls: "clauses s' = clauses s" by (simp add: s')
  have cnt: "\<And>x p. lidx p < length (watchers s) \<Longrightarrow>
     watch_count s' x p + (if p = lit \<and> x = cr then 1 else 0)
       = watch_count s x p + (if p = l2 \<and> x = cr then 1 else 0)"
  proof -
    fix x p assume p: "lidx p < length (watchers s)"
    have a: "count_list (W1 ! lidx p) x + (if p = lit \<and> x = cr then 1 else 0) = watch_count s x p"
    proof (cases "p = lit")
      case True
      then have "W1 ! lidx p = butlast (w[i := last w])" using rng by (simp add: W1_def)
      with count_list_swap_pop[of i w x] rng cr True show ?thesis
        by (auto simp: w_def watch_count_def split: if_splits)
    next
      case False
      then have "W1 ! lidx p = watchers s ! lidx p" by (simp add: W1_def lidx_def)
      with False show ?thesis by (simp add: watch_count_def)
    qed
    have "watch_count s' x p = count_list (W1 ! lidx p) x + (if p = l2 \<and> x = cr then 1 else 0)"
    proof (cases "p = l2")
      case True
      then show ?thesis using l2r by (simp add: s' watch_count_def W1_def lidx_def)
    next
      case False
      then show ?thesis by (simp add: s' watch_count_def lidx_def)
    qed
    with a show "watch_count s' x p + (if p = lit \<and> x = cr then 1 else 0)
       = watch_count s x p + (if p = l2 \<and> x = cr then 1 else 0)" by simp
  qed
  have old: "\<And>x. x \<in> set (clauses s) \<Longrightarrow> watched s x" using inv by (simp add: watch_inv_def)
  have w': "\<And>x. x \<in> set (clauses s) \<Longrightarrow> watched s' x"
  proof -
    fix x assume x: "x \<in> set (clauses s)"
    show "watched s' x"
    proof (cases "x = cr")
      case False
      then have xh: "heap s' ! x = heap s ! x" by (simp add: s')
      have "length (heap s') = length (heap s)" by (simp add: s')
      with old[OF x] False cnt[of _ x] show ?thesis
        unfolding watched_def xh wl by auto
    next
      case True
      have xh: "heap s' ! cr = swap_elems 1 k C" using crl by (simp add: s')
      have n1: "lit_not (C ! 1) = lit" using w1 by (simp add: C_def)
      have hl: "length (heap s') = length (heap s)" by (simp add: s')
      have "\<And>p. lidx p < length (watchers s) \<Longrightarrow>
          watch_count s' cr p = (if p = lit_not (C ! 0) then 1 else 0) + (if p = l2 then 1 else 0)"
      proof -
        fix p assume p: "lidx p < length (watchers s)"
        from wcr p n1 have "watch_count s cr p = (if p = lit_not (C ! 0) then 1 else 0) + (if p = lit then 1 else 0)"
          by (simp add: watched_def C_def[symmetric])
        with cnt[OF p, of cr] show "watch_count s' cr p = (if p = lit_not (C ! 0) then 1 else 0) + (if p = l2 then 1 else 0)"
          by (auto split: if_splits)
      qed
      with wcr l2r cl1 crl show ?thesis
        unfolding True watched_def xh wl hl sw
        by (simp add: l2_def C_def)
    qed
  qed
  have sub: "\<forall>p < length (watchers s). set (watchers s ! p) \<subseteq> set (clauses s)"
    using inv by (simp add: watch_inv_def)
  have sub': "\<forall>p < length (watchers s'). set (watchers s' ! p) \<subseteq> set (clauses s')"
  proof (intro allI impI subsetI)
    fix p x assume p: "p < length (watchers s')" and x: "x \<in> set (watchers s' ! p)"
    have "count_list (watchers s' ! p) x \<noteq> 0" using x by (simp add: count_list_0_iff)
    then have "watch_count s' x p \<noteq> 0" by (simp add: watch_count_def lidx_def)
    with cnt[of p x] p wl have "watch_count s x p \<noteq> 0 \<or> x = cr"
      by (auto simp: lidx_def split: if_splits)
    then have "x \<in> set (watchers s ! p) \<or> x = cr"
      by (auto simp: watch_count_def lidx_def count_list_0_iff)
    with sub p wl crin show "x \<in> set (clauses s')" by (auto simp: cls)
  qed
  show ?thesis unfolding watch_inv_def using w' sub' by (simp add: cls)
qed

lemma watch_inv_examine:
  assumes inv: "watch_inv s" and ex: "examine lit i cr s = Inr (r, s')"
    and rng: "lidx lit < length (watchers s)" "i < length (watchers s ! lidx lit)"
    and cr: "watchers s ! lidx lit ! i = cr"
    and w1: "heap s ! cr ! 1 = lit_not lit"
  shows "watch_inv s'"
  using ex
proof (cases rule: examine_cases)
  case satisfied
  with inv show ?thesis by simp
next
  case (moved k e0)
  from find_watch_drop2[OF moved(3)] have k: "2 \<le> k" "k < length (heap s ! cr)" by simp_all
  from watch_inv_move_watch[OF inv moved(4) rng cr k w1] show ?thesis .
next
  case conflict
  with inv show ?thesis by simp
next
  case unit
  from watch_inv_enqueue[OF unit(3)] inv show ?thesis by simp
qed

lemma watch_inv_visit:
  assumes inv: "watch_inv s" and v: "visit lit i s = Inr (r, s')"
    and rng: "lidx lit < length (watchers s)" "i < length (watchers s ! lidx lit)"
  shows "watch_inv s'"
  using v
proof (cases rule: visit_cases)
  case (1 cr s1)
  have inv1: "watch_inv s1" unfolding 1(5) by (rule watch_inv_normalize_watch[OF inv])
  have w: "watchers s1 = watchers s" by (simp add: 1(5))
  have c: "watchers s1 ! lidx lit ! i = cr" using 1(1) w by simp
  show ?thesis
    by (rule watch_inv_examine[OF inv1 1(8) _ _ c 1(6)]) (simp_all add: w rng)
qed

lemma watch_inv_propagate:
  assumes "watch_inv s" "propagate s = Inr (r, s')"
  shows "watch_inv s'"
proof (rule propagate_invariant[where P = watch_inv, OF assms(2,1)])
  show "\<And>s n. watch_inv s \<Longrightarrow> watch_inv (s\<lparr>que_head := n\<rparr>)" by simp
  show "\<And>lit i s r s'. watch_inv s \<Longrightarrow> lidx lit < length (watchers s) \<Longrightarrow>
           i < length (watchers s ! lidx lit) \<Longrightarrow> visit lit i s = Inr (r, s') \<Longrightarrow> watch_inv s'"
    by (rule watch_inv_visit)
qed

lemma watch_inv_add_clause:
  assumes "watch_inv s" "add_clause c s = Inr s'"
  shows "watch_inv s'"
proof (cases "length c = 1")
  case True
  with assms(2) have "enqueue (c ! 0) None (grow c s) = Inr s'" by (simp add: add_clause_def Let_def)
  from watch_inv_enqueue[OF this] watch_inv_grow[OF assms(1)] show ?thesis by simp
next
  case False
  with assms(2) have "attach_clause (length (heap (grow c s))) False
      ((grow c s)\<lparr>heap := heap (grow c s) @ [c]\<rparr>) = Inr s'"
    by (simp add: add_clause_def make_shared_def Let_def)
  from watch_inv_attach_new[OF watch_inv_grow[OF assms(1)] this] show ?thesis .
qed

lemma watch_inv_learn:
  assumes "watch_inv s" "learn c s = Inr s'"
  shows "watch_inv s'"
proof (cases "length c = 1")
  case True
  with assms(2) have "enqueue (c ! 0) None s = Inr s'" by (simp add: learn_def)
  from watch_inv_enqueue[OF this] assms(1) show ?thesis by simp
next
  case False
  with assms(2) obtain s2 where a: "attach_clause (length (heap s)) True (s\<lparr>heap := heap s @ [c]\<rparr>) = Inr s2"
    and e: "enqueue (c ! 0) (Some (length (heap s))) s2 = Inr s'"
    by (auto simp: learn_def make_shared_def ebind_Inr_iff)
  from watch_inv_attach_new[OF assms(1) a] watch_inv_enqueue[OF e] show ?thesis by simp
qed

lemma watch_inv_on_fixpoint:
  assumes "watch_inv s" "on_fixpoint s = Inr (r, s')"
  shows "watch_inv s'"
proof -
  from assms(2) obtain nxt where n: "first_undefined [0..<length (assings s)] s = Inr nxt"
    by (auto simp: on_fixpoint_def ebind_Inr_iff)
  show ?thesis
  proof (cases nxt)
    case None
    with assms n show ?thesis by (simp add: on_fixpoint_def)
  next
    case (Some l)
    with assms(2) n have "new_decision l None s = Inr s'"
      by (auto simp: on_fixpoint_def ebind_Inr_iff)
    from watch_inv_new_decision[OF this] assms(1) show ?thesis by simp
  qed
qed

lemma reachable_watch_inv: "reachable s \<Longrightarrow> watch_inv s"
proof (induction rule: reachable.induct)
  case (init variable_num)
  show ?case by (rule watch_inv_Solver)
next
  case (add s clause s')
  then show ?case by (metis watch_inv_add_clause)
next
  case (propagated s conflict s')
  then show ?case by (metis watch_inv_propagate)
next
  case (decided s s')
  then show ?case by (metis watch_inv_on_fixpoint)
next
  case (backjumped s conflict learnt_clause back_jump_level s')
  from watch_inv_pop_queue_until[OF backjumped(3) reachable_trail_inv[OF backjumped(1)]]
    backjumped(4) show ?case by simp
next
  case (learnt s conflict learnt_clause back_jump_level s1 s')
  from watch_inv_pop_queue_until[OF learnt(3) reachable_trail_inv[OF learnt(1)]]
    learnt(5) have "watch_inv s1" by simp
  from watch_inv_learn[OF this learnt(4)] show ?case .
qed

lemma reachable_propagated_state: "reachable propagated_state"
proof -
  define s1 where "s1 = \<lparr>assings = [False, False, False], status = None, clauses = [0],
        learnts = [], watchers = [[], [0], [], [0], [], []],
        reasons = [None, None, None], levels = [None, None, None], que = [],
        que_head = 0, heap = [[0, 2, 4]]\<rparr>"
  define s2 where "s2 = s1\<lparr>levels := [Some 1, None, None], que := [1]\<rparr>"
  define s3 where "s3 = s2\<lparr>watchers := [[], [], [], [0], [], [0]], que_head := 1,
        heap := [[2, 4, 0]]\<rparr>"
  define s4 where "s4 = s3\<lparr>levels := [Some 1, Some 2, None], que := [1, 3]\<rparr>"
  have "add_clause [Lit 0 True, Lit 1 True, Lit 2 True] (Solver 3) = Inr s1"
    unfolding s1_def by code_simp
  from reachable.add[OF reachable.init this] have r1: "reachable s1" .
  have "on_fixpoint s1 = Inr (None, s2)" unfolding s1_def s2_def by code_simp
  from reachable.decided[OF r1 this] have r2: "reachable s2" .
  have "propagate s2 = Inr (None, s3)" unfolding s1_def s2_def s3_def by code_simp
  from reachable.propagated[OF r2 this] have r3: "reachable s3" .
  have "on_fixpoint s3 = Inr (None, s4)" unfolding s1_def s2_def s3_def s4_def by code_simp
  from reachable.decided[OF r3 this] have r4: "reachable s4" .
  have "propagate s4 = Inr (None, propagated_state)"
    unfolding s1_def s2_def s3_def s4_def propagated_state_def by code_simp
  from reachable.propagated[OF r4 this] show ?thesis .
qed

text \<open>
  C8, as the claim states it: every stored clause is in exactly two watcher lists. It is
  not when its first two literals are the same: after \<open>add_clause {x0, x0}\<close> on
  \<open>Solver 1\<close>, a reachable state, the stored clause (handle 0) is in one watcher list
  only, the list of \<open>!x0\<close>, which holds the handle twice.
\<close>

theorem repeated_literal_one_watcher_list_counterexample:
  "add_clause [Lit 0 True, Lit 0 True] (Solver 1) = Inr attached_repeated_state \<and>
   reachable attached_repeated_state \<and>
   clauses attached_repeated_state = [0] \<and>
   heap attached_repeated_state ! 0 = [Lit 0 True, Lit 0 True] \<and>
   watching_lists attached_repeated_state 0 = [lidx (Lit 0 False)] \<and>
   length (watching_lists attached_repeated_state 0) = 1 \<and>
   watchers attached_repeated_state ! lidx (Lit 0 False) = [0, 0]"
proof -
  have a: "add_clause [Lit 0 True, Lit 0 True] (Solver 1) = Inr attached_repeated_state"
    unfolding attached_repeated_state_def by code_simp
  from reachable.add[OF reachable.init a] have r: "reachable attached_repeated_state" .
  have "clauses attached_repeated_state = [0]"
    "heap attached_repeated_state ! 0 = [Lit 0 True, Lit 0 True]"
    "watching_lists attached_repeated_state 0 = [lidx (Lit 0 False)]"
    "length (watching_lists attached_repeated_state 0) = 1"
    "watchers attached_repeated_state ! lidx (Lit 0 False) = [0, 0]"
    unfolding attached_repeated_state_def by code_simp+
  with a r show ?thesis by simp
qed

text \<open>
  C8, amended: in every reachable state, every stored clause has at least two literals and
  its handle occurs in the watcher index exactly twice, counted with multiplicity: once in
  the list of the negation of its literal 0 and once in the list of the negation of its
  literal 1, and in no other list. These are two lists when the two watched literals
  differ, and one list holding the handle twice when they are equal. The invariant holds
  in the constructor's state, \<^verbatim>\<open>attach_clause\<close> establishes it for the new clause
  (\<open>watch_inv_attach_new\<close>) and \<^verbatim>\<open>propagate\<close>, with its swaps inside the clause and
  its swap-pop removal, keeps it (\<open>watch_inv_propagate\<close>).
\<close>

theorem stored_clause_watched_twice:
  assumes "reachable s" "cr \<in> set (clauses s)"
  shows "cr < length (heap s) \<and> 1 < length (heap s ! cr) \<and>
         lidx (lit_not (heap s ! cr ! 0)) < length (watchers s) \<and>
         lidx (lit_not (heap s ! cr ! 1)) < length (watchers s) \<and>
         (\<forall>p. lidx p < length (watchers s) \<longrightarrow>
            count_list (watchers s ! lidx p) cr
              = (if p = lit_not (heap s ! cr ! 0) then 1 else 0)
              + (if p = lit_not (heap s ! cr ! 1) then 1 else 0))"
proof -
  from reachable_watch_inv[OF assms(1)] assms(2) have "watched s cr"
    by (simp add: watch_inv_def)
  then show ?thesis by (simp add: watched_def watch_count_def)
qed

theorem stored_clause_watched_twice_witness:
  "reachable propagated_state \<and> clauses propagated_state = [0] \<and>
   heap propagated_state ! 0 = [Lit 2 True, Lit 1 True, Lit 0 True] \<and>
   map (\<lambda>p. count_list (watchers propagated_state ! lidx p) 0)
     [Lit 0 True, Lit 0 False, Lit 1 True, Lit 1 False, Lit 2 True, Lit 2 False]
     = [0, 0, 0, 1, 0, 1]"
proof -
  have c: "0 \<in> set (clauses propagated_state)" unfolding propagated_state_def by simp
  have h: "clauses propagated_state = [0]"
    "heap propagated_state ! 0 = [Lit 2 True, Lit 1 True, Lit 0 True]"
    "length (watchers propagated_state) = 6"
    unfolding propagated_state_def by code_simp+
  have n: "lit_not (Lit 2 True) = Lit 2 False" "lit_not (Lit 1 True) = Lit 1 False"
    by code_simp+
  have d: "Lit 0 True \<noteq> Lit 2 False" "Lit 0 True \<noteq> Lit 1 False"
    "Lit 0 False \<noteq> Lit 2 False" "Lit 0 False \<noteq> Lit 1 False"
    "Lit 1 True \<noteq> Lit 2 False" "Lit 1 True \<noteq> Lit 1 False"
    "Lit 1 False \<noteq> Lit 2 False" "Lit 2 True \<noteq> Lit 2 False" "Lit 2 True \<noteq> Lit 1 False"
    "Lit 2 False \<noteq> Lit 1 False"
    by (simp_all add: Lit_def)
  have r: "lidx (Lit 0 True) < 6" "lidx (Lit 0 False) < 6" "lidx (Lit 1 True) < 6"
    "lidx (Lit 1 False) < 6" "lidx (Lit 2 True) < 6" "lidx (Lit 2 False) < 6"
    by (simp_all add: Lit_def lidx_def)
  from stored_clause_watched_twice[OF reachable_propagated_state c] n
  have "\<And>p. lidx p < 6 \<Longrightarrow> count_list (watchers propagated_state ! lidx p) 0
     = (if p = Lit 2 False then 1 else 0) + (if p = Lit 1 False then 1 else 0)"
    unfolding h by simp
  from this[OF r(1)] this[OF r(2)] this[OF r(3)] this[OF r(4)] this[OF r(5)] this[OF r(6)]
  show ?thesis using reachable_propagated_state h(1,2) d by simp
qed

section \<open>Properties of the reasons\<close>

lemma var_div: "var l = l div 2" unfolding var_def by (simp add: drop_bit_eq_div)
lemma neg_odd: "neg l = odd l" unfolding neg_def by (simp add: and_one_eq mod_2_eq_odd)

lemma vidx_lit_not [simp]: "vidx (lit_not p) = vidx p"
  by (auto simp: vidx_def var_div lit_not_alt elim!: oddE)

lemma pos_lit_not [simp]: "pos (lit_not p) = (\<not> pos p)"
  by (auto simp: pos_def neg_odd lit_not_alt)

lemma lit_not_neq [simp]: "lit_not p \<noteq> p" "p \<noteq> lit_not p"
  by (auto simp: lit_not_alt elim!: oddE)

lemma lit_eqI: "vidx a = vidx b \<Longrightarrow> pos a = pos b \<Longrightarrow> a = b"
  unfolding vidx_def var_div pos_def neg_odd
  by (metis dvd_mult_div_cancel odd_two_times_div_two_succ)

lemma lit_opposite: "vidx a = vidx b \<Longrightarrow> pos a \<noteq> pos b \<Longrightarrow> a = lit_not b"
  by (rule lit_eqI) simp_all

lemma eval_lit_cong:
  "levels s' = levels s \<Longrightarrow> assings s' = assings s \<Longrightarrow> eval_lit l s' = eval_lit l s"
  by (simp add: eval_lit_def)

lemma eval_lit_same_var:
  assumes "levels s' ! vidx l = levels s ! vidx l" "assings s' ! vidx l = assings s ! vidx l"
    "length (levels s') = length (levels s)" "length (assings s') = length (assings s)"
  shows "eval_lit l s' = eval_lit l s"
  using assms by (simp add: eval_lit_def)

lemma eval_lit_assigned:
  "eval_lit l s = Inr e \<Longrightarrow> e \<noteq> LitBool_Undefine \<Longrightarrow>
   vidx l < length (levels s) \<and> levels s ! vidx l \<noteq> None \<and> vidx l < length (assings s)"
  by (auto simp: eval_lit_def split: if_splits)

lemma eval_lit_False_iff:
  "eval_lit l s = Inr LitBool_False \<longleftrightarrow>
   vidx l < length (levels s) \<and> levels s ! vidx l \<noteq> None \<and> vidx l < length (assings s) \<and>
   assings s ! vidx l \<noteq> pos l"
  by (auto simp: eval_lit_def pos_def split: if_splits)

lemma eval_lit_True_iff:
  "eval_lit l s = Inr LitBool_True \<longleftrightarrow>
   vidx l < length (levels s) \<and> levels s ! vidx l \<noteq> None \<and> vidx l < length (assings s) \<and>
   assings s ! vidx l = pos l"
  by (auto simp: eval_lit_def pos_def split: if_splits)

lemma trail_inv_polarity: "trail_inv s \<Longrightarrow> l \<in> set (que s) \<Longrightarrow> assings s ! vidx l = pos l"
  unfolding trail_inv_def by blast

lemma trail_lit_True:
  assumes "trail_inv s" "l \<in> set (que s)"
  shows "eval_lit l s = Inr LitBool_True"
  using trail_inv_in_range[OF assms] trail_inv_polarity[OF assms] unfolding eval_lit_True_iff
  by simp

lemma False_on_trail:
  assumes "trail_inv s" "eval_lit x s = Inr LitBool_False"
  shows "lit_not x \<in> set (que s)"
proof -
  from assms(2) have x: "vidx x < length (levels s)" "levels s ! vidx x \<noteq> None"
    "assings s ! vidx x \<noteq> pos x" by (simp_all add: eval_lit_False_iff)
  then obtain y where "levels s ! vidx x = Some y" by auto
  from trail_inv_assigned[OF assms(1) x(1) this] obtain t where
    t: "t \<in> set (que s)" "vidx t = vidx x" by blast
  from trail_inv_polarity[OF assms(1) t(1)] x(3) t(2) have "pos t \<noteq> pos x" by simp
  from lit_opposite[OF t(2) this] t(1) show ?thesis by simp
qed

lemma reason_inv_Solver: "reason_inv (Solver n)"
  by (simp add: reason_inv_def Solver_def)

lemma reason_ok_frame:
  assumes "reason_ok s i r" "heap s' ! r = heap s ! r" "length (heap s) \<le> length (heap s')"
    "\<forall>i' \<le> i. que s' ! i' = que s ! i'"
    "\<forall>x. eval_lit x s = Inr LitBool_False \<longrightarrow> eval_lit x s' = Inr LitBool_False"
  shows "reason_ok s' i r"
  unfolding reason_ok_def
proof (intro conjI allI impI)
  from assms(1) have a: "r < length (heap s)" "heap s ! r \<noteq> []" "heap s ! r ! 0 = que s ! i"
    and b: "\<And>j. 0 < j \<Longrightarrow> j < length (heap s ! r) \<Longrightarrow>
        eval_lit (heap s ! r ! j) s = Inr LitBool_False \<and>
        (\<exists>i' < i. que s ! i' = lit_not (heap s ! r ! j))"
    by (simp_all add: reason_ok_def)
  show "r < length (heap s')" using a(1) assms(3) by simp
  show "heap s' ! r \<noteq> []" using a(2) assms(2) by simp
  show "heap s' ! r ! 0 = que s' ! i" using a(3) assms(2,4) by simp
  fix j assume j: "0 < j \<and> j < length (heap s' ! r)"
  with b[of j] assms(2) have e: "eval_lit (heap s ! r ! j) s = Inr LitBool_False"
    and "\<exists>i' < i. que s ! i' = lit_not (heap s ! r ! j)" by simp_all
  then obtain i' where i': "i' < i" "que s ! i' = lit_not (heap s ! r ! j)" by blast
  from e assms(2,5) show "eval_lit (heap s' ! r ! j) s' = Inr LitBool_False" by simp
  from i' assms(2,4) have "i' < i \<and> que s' ! i' = lit_not (heap s' ! r ! j)" by simp
  then show "\<exists>i' < i. que s' ! i' = lit_not (heap s' ! r ! j)" by blast
qed

lemma reason_inv_frame:
  assumes "reason_inv s" "heap s' = heap s" "que s' = que s" "reasons s' = reasons s"
    "levels s' = levels s" "assings s' = assings s"
  shows "reason_inv s'"
  unfolding reason_inv_def
proof (intro allI impI)
  fix i r assume i: "i < length (que s')" and r: "reasons s' ! vidx (que s' ! i) = Some r"
  with assms have "reason_ok s i r" by (simp add: reason_inv_def)
  then show "reason_ok s' i r"
    by (rule reason_ok_frame) (simp_all add: assms eval_lit_cong[OF assms(5,6)])
qed

lemma reason_inv_que_head [simp]: "reason_inv (s\<lparr>que_head := n\<rparr>) = reason_inv s"
  by (simp add: reason_inv_def reason_ok_def eval_lit_def)

lemma reason_inv_assign:
  assumes tr: "trail_inv s" and inv: "reason_inv s"
    and v: "vidx l < length (levels s)" "levels s ! vidx l = None"
    and shape: "\<And>cr. r = Some cr \<Longrightarrow>
        cr < length (heap s) \<and> heap s ! cr \<noteq> [] \<and> heap s ! cr ! 0 = l \<and>
        (\<forall>j. 0 < j \<and> j < length (heap s ! cr) \<longrightarrow>
           eval_lit (heap s ! cr ! j) s = Inr LitBool_False)"
  shows "reason_inv (assign l r x s)"
  unfolding reason_inv_def
proof (intro allI impI)
  let ?s = "assign l r x s"
  fix i c assume i: "i < length (que ?s)" and c: "reasons ?s ! vidx (que ?s ! i) = Some c"
  have ev: "\<forall>y. eval_lit y s = Inr LitBool_False \<longrightarrow> eval_lit y ?s = Inr LitBool_False"
  proof (intro allI impI)
    fix y assume y: "eval_lit y s = Inr LitBool_False"
    then have "levels s ! vidx y \<noteq> None" by (simp add: eval_lit_False_iff)
    with v(2) have "vidx l \<noteq> vidx y" by auto
    then have "eval_lit y ?s = eval_lit y s"
      by (intro eval_lit_same_var) simp_all
    with y show "eval_lit y ?s = Inr LitBool_False" by simp
  qed
  have rl: "vidx l < length (reasons s)" using tr v(1) by (simp add: trail_inv_def)
  show "reason_ok ?s i c"
  proof (cases "i < length (que s)")
    case True
    then have t: "que ?s ! i = que s ! i" by (simp add: nth_append)
    have "que s ! i \<in> set (que s)" using True by simp
    from trail_inv_in_range[OF tr this] v(2) have "vidx l \<noteq> vidx (que s ! i)" by auto
    with c t have "reasons s ! vidx (que s ! i) = Some c" by simp
    with inv True have ok: "reason_ok s i c" by (simp add: reason_inv_def)
    show ?thesis
      by (rule reason_ok_frame[OF ok]) (use True ev in \<open>simp_all add: nth_append\<close>)
  next
    case False
    with i have ie: "i = length (que s)" by simp
    then have t: "que ?s ! i = l" by simp
    with c rl have rc: "r = Some c" by simp
    from shape[OF rc] have a: "c < length (heap s)" "heap s ! c \<noteq> []" "heap s ! c ! 0 = l"
      and b: "\<And>j. 0 < j \<Longrightarrow> j < length (heap s ! c) \<Longrightarrow>
           eval_lit (heap s ! c ! j) s = Inr LitBool_False" by simp_all
    show ?thesis
      unfolding reason_ok_def
    proof (intro conjI allI impI)
      show "c < length (heap ?s)" "heap ?s ! c \<noteq> []" "heap ?s ! c ! 0 = que ?s ! i"
        using a t by simp_all
      fix j assume j: "0 < j \<and> j < length (heap ?s ! c)"
      then have e: "eval_lit (heap s ! c ! j) s = Inr LitBool_False" using b[of j] by simp
      with ev show "eval_lit (heap ?s ! c ! j) ?s = Inr LitBool_False" by simp
      from False_on_trail[OF tr e] obtain i' where
        i': "i' < length (que s)" "que s ! i' = lit_not (heap s ! c ! j)"
        by (auto simp: in_set_conv_nth)
      then have "i' < i \<and> que ?s ! i' = lit_not (heap ?s ! c ! j)"
        by (simp add: ie nth_append)
      then show "\<exists>i' < i. que ?s ! i' = lit_not (heap ?s ! c ! j)" by blast
    qed
  qed
qed

lemma nth_in_take: "i < n \<Longrightarrow> i < length xs \<Longrightarrow> xs ! i \<in> set (take n xs)"
proof -
  assume a: "i < n" "i < length xs"
  then have "i < length (take n xs)" "take n xs ! i = xs ! i" by simp_all
  then show ?thesis by (metis nth_mem)
qed

lemma popped_keep:
  assumes "popped_ok u s s1 n" "distinct (map vidx (que s))" "l \<in> set (take n (que s))"
  shows "levels s1 ! vidx l = levels s ! vidx l \<and> reasons s1 ! vidx l = reasons s ! vidx l"
proof -
  have "vidx l \<notin> vidx ` set (drop n (que s))"
  proof
    assume "vidx l \<in> vidx ` set (drop n (que s))"
    then obtain b where "b \<in> set (drop n (que s))" "vidx l = vidx b" by (rule imageE)
    with distinct_take_drop_disjoint[OF assms(2,3), of b] show False by simp
  qed
  with assms(1) show ?thesis by (simp add: popped_ok_def)
qed

lemma reason_inv_popped:
  assumes tr: "trail_inv s" and inv: "reason_inv s" and p: "popped_ok u s s1 n"
  shows "reason_inv s1"
  unfolding reason_inv_def
proof (intro allI impI)
  from p have q1: "que s1 = take n (que s)" and nl: "n \<le> length (que s)"
    and h: "heap s1 = heap s" and a: "assings s1 = assings s"
    and ll: "length (levels s1) = length (levels s)"
    by (simp_all add: popped_ok_def)
  have dist: "distinct (map vidx (que s))" using tr by (simp add: trail_inv_def)
  fix i r assume i: "i < length (que s1)" and r: "reasons s1 ! vidx (que s1 ! i) = Some r"
  from i q1 have i_n: "i < n" "i < length (que s)" by simp_all
  then have qi: "que s1 ! i = que s ! i" by (simp add: q1)
  have "que s ! i \<in> set (take n (que s))" using i_n by (intro nth_in_take)
  from popped_keep[OF p dist this] r qi have "reasons s ! vidx (que s ! i) = Some r" by simp
  with inv i_n have ok: "reason_ok s i r" by (simp add: reason_inv_def)
  then have o1: "r < length (heap s)" "heap s ! r \<noteq> []" "heap s ! r ! 0 = que s ! i"
    and o2: "\<And>j. 0 < j \<Longrightarrow> j < length (heap s ! r) \<Longrightarrow>
        eval_lit (heap s ! r ! j) s = Inr LitBool_False \<and>
        (\<exists>i' < i. que s ! i' = lit_not (heap s ! r ! j))"
    by (simp_all add: reason_ok_def)
  show "reason_ok s1 i r"
    unfolding reason_ok_def h
  proof (intro conjI allI impI)
    show "r < length (heap s)" "heap s ! r \<noteq> []" by (rule o1)+
    show "heap s ! r ! 0 = que s1 ! i" using o1(3) qi by simp
    fix j assume j: "0 < j \<and> j < length (heap s ! r)"
    with o2[of j] obtain i' where e: "eval_lit (heap s ! r ! j) s = Inr LitBool_False"
      and i': "i' < i" "que s ! i' = lit_not (heap s ! r ! j)" by auto
    have "que s ! i' \<in> set (take n (que s))" using i' i_n by (intro nth_in_take) simp_all
    from popped_keep[OF p dist this] i'(2)
    have "levels s1 ! vidx (heap s ! r ! j) = levels s ! vidx (heap s ! r ! j)" by simp
    then have "eval_lit (heap s ! r ! j) s1 = eval_lit (heap s ! r ! j) s"
      by (intro eval_lit_same_var) (simp_all add: a ll)
    with e show "eval_lit (heap s ! r ! j) s1 = Inr LitBool_False" by simp
    from i' i_n have "i' < i \<and> que s1 ! i' = lit_not (heap s ! r ! j)" by (simp add: q1)
    then show "\<exists>i' < i. que s1 ! i' = lit_not (heap s ! r ! j)" by blast
  qed
qed

lemma reason_inv_pop_queue_until:
  assumes "trail_inv s" "reason_inv s" "pop_queue_until u s = Inr s'"
  shows "reason_inv s'"
proof -
  from assms(3) have ne: "que s \<noteq> []" by (auto simp: pop_queue_until_def split: if_splits)
  from pop_queue_until_trail[OF assms(1) ne, of u] assms(3) obtain s1 n where
    p: "popped_ok u s s1 n" and s': "s' = s1\<lparr>que_head := length (que s1) - 1\<rparr>" by auto
  from reason_inv_popped[OF assms(1,2) p] show ?thesis by (simp add: s')
qed

text \<open>A clause whose literal 0 is not True is not the reason of a trail literal.\<close>

lemma not_a_reason:
  assumes tr: "trail_inv s" and inv: "reason_inv s"
    and e: "eval_lit (heap s ! cr ! 0) s \<noteq> Inr LitBool_True"
    and i: "i < length (que s)" and r: "reasons s ! vidx (que s ! i) = Some r"
  shows "r \<noteq> cr"
proof
  assume "r = cr"
  with inv i r have "reason_ok s i cr" by (simp add: reason_inv_def)
  then have "heap s ! cr ! 0 = que s ! i" by (simp add: reason_ok_def)
  moreover have "eval_lit (que s ! i) s = Inr LitBool_True"
    using i by (intro trail_lit_True[OF tr]) simp
  ultimately show False using e by simp
qed

lemma reason_inv_heap_update:
  assumes tr: "trail_inv s" and inv: "reason_inv s"
    and e: "eval_lit (heap s ! cr ! 0) s \<noteq> Inr LitBool_True"
    and s': "heap s' = (heap s)[cr := c]" "que s' = que s" "reasons s' = reasons s"
      "levels s' = levels s" "assings s' = assings s"
  shows "reason_inv s'"
  unfolding reason_inv_def
proof (intro allI impI)
  fix i r assume i: "i < length (que s')" and r: "reasons s' ! vidx (que s' ! i) = Some r"
  from i r s' have i0: "i < length (que s)" and r0: "reasons s ! vidx (que s ! i) = Some r"
    by simp_all
  from not_a_reason[OF tr inv e i0 r0] have ne: "r \<noteq> cr" .
  from inv i0 r0 have ok: "reason_ok s i r" by (simp add: reason_inv_def)
  show "reason_ok s' i r"
    by (rule reason_ok_frame[OF ok]) (use ne s' in \<open>simp_all add: eval_lit_cong[OF s'(4,5)]\<close>)
qed

lemma reason_inv_normalize_watch:
  assumes tr: "trail_inv s" and inv: "reason_inv s"
    and e: "eval_lit n s = Inr LitBool_False"
  shows "reason_inv (normalize_watch n cr s)"
proof (cases "heap s ! cr ! 0 = n")
  case False
  then show ?thesis using inv by (simp add: normalize_watch_def)
next
  case True
  with e have "eval_lit (heap s ! cr ! 0) s \<noteq> Inr LitBool_True" by simp
  from reason_inv_heap_update[OF tr inv this, of "normalize_watch n cr s" "swap_elems 0 1 (heap s ! cr)"]
    True show ?thesis by (simp add: normalize_watch_def)
qed

lemma reason_inv_move_watch:
  assumes tr: "trail_inv s" and inv: "reason_inv s"
    and e: "eval_lit (heap s ! cr ! 0) s \<noteq> Inr LitBool_True"
    and mv: "move_watch lit i cr k s = Inr s'"
  shows "reason_inv s'"
proof -
  from mv have "heap s' = (heap s)[cr := swap_elems 1 k (heap s ! cr)]"
    by (auto simp: move_watch_def Let_def push_watch_Inr)
  with move_watch_fields[OF mv] show ?thesis
    by (intro reason_inv_heap_update[OF tr inv e]) simp_all
qed

lemma nth_in_drop: "n \<le> j \<Longrightarrow> j < length xs \<Longrightarrow> xs ! j \<in> set (drop n xs)"
proof -
  assume a: "n \<le> j" "j < length xs"
  then obtain m where m: "j = n + m" using le_Suc_ex by blast
  with a have "m < length (drop n xs)" "drop n xs ! m = xs ! j" by simp_all
  then show ?thesis by (metis nth_mem)
qed

lemma reason_inv_enqueue:
  assumes tr: "trail_inv s" and inv: "reason_inv s" and en: "enqueue l r s = Inr s'"
    and shape: "\<And>cr. r = Some cr \<Longrightarrow>
        cr < length (heap s) \<and> heap s ! cr \<noteq> [] \<and> heap s ! cr ! 0 = l \<and>
        (\<forall>j. 0 < j \<and> j < length (heap s ! cr) \<longrightarrow>
           eval_lit (heap s ! cr ! j) s = Inr LitBool_False)"
  shows "reason_inv s'"
proof -
  from en have v: "vidx l < length (levels s)" "levels s ! vidx l = None"
    and s': "s' = assign l r (top_level s) s"
    by (simp_all add: enqueue_Inr[OF tr])
  show ?thesis unfolding s' by (rule reason_inv_assign[OF tr inv v shape])
qed

lemma reason_inv_examine:
  assumes tr: "trail_inv s" and inv: "reason_inv s"
    and ex: "examine lit i cr s = Inr (r, s')"
    and c: "cr < length (heap s)" "1 < length (heap s ! cr)"
    and w1: "heap s ! cr ! 1 = lit_not lit"
    and e1: "eval_lit (lit_not lit) s = Inr LitBool_False"
  shows "reason_inv s'"
  using ex
proof (cases rule: examine_cases)
  case satisfied
  with inv show ?thesis by simp
next
  case (moved k e0)
  from moved(1,2) have "eval_lit (heap s ! cr ! 0) s \<noteq> Inr LitBool_True" by simp
  from reason_inv_move_watch[OF tr inv this moved(4)] show ?thesis .
next
  case conflict
  with inv show ?thesis by simp
next
  case unit
  show ?thesis
  proof (rule reason_inv_enqueue[OF tr inv unit(3)])
    fix cr' assume "Some cr = Some cr'"
    then have eq: "cr' = cr" by simp
    have "\<forall>j. 0 < j \<and> j < length (heap s ! cr) \<longrightarrow>
           eval_lit (heap s ! cr ! j) s = Inr LitBool_False"
    proof (intro allI impI)
      fix j assume j: "0 < j \<and> j < length (heap s ! cr)"
      show "eval_lit (heap s ! cr ! j) s = Inr LitBool_False"
      proof (cases "j = 1")
        case True
        with w1 e1 show ?thesis by simp
      next
        case False
        with j have j2: "2 \<le> j" by simp
        with j have "heap s ! cr ! j \<in> set (drop 2 (heap s ! cr))"
          by (intro nth_in_drop) simp_all
        with find_watch_None[OF unit(2)] show ?thesis by blast
      qed
    qed
    with c show "cr' < length (heap s) \<and> heap s ! cr' \<noteq> [] \<and>
        heap s ! cr' ! 0 = heap s ! cr ! 0 \<and>
        (\<forall>j. 0 < j \<and> j < length (heap s ! cr') \<longrightarrow>
           eval_lit (heap s ! cr' ! j) s = Inr LitBool_False)"
      unfolding eq by auto
  qed
qed

lemma reason_inv_visit:
  assumes tr: "trail_inv s" and inv: "reason_inv s" and v: "visit lit i s = Inr (r, s')"
  shows "reason_inv s'"
  using v
proof (cases rule: visit_cases)
  case (1 cr s1)
  have tr1: "trail_inv s1" unfolding 1(5) using tr by simp
  have inv1: "reason_inv s1" unfolding 1(5) by (rule reason_inv_normalize_watch[OF tr inv 1(7)])
  have e1: "eval_lit (lit_not lit) s1 = Inr LitBool_False" unfolding 1(5) using 1(7) by simp
  have c1: "cr < length (heap s1)" "1 < length (heap s1 ! cr)"
    using 1(2,3) unfolding 1(5) by (auto simp: normalize_watch_def)
  from reason_inv_examine[OF tr1 inv1 1(8) c1 1(6) e1] show ?thesis .
qed

lemma trail_reason_inv_propagate:
  assumes "trail_inv s" "reason_inv s" "propagate s = Inr (r, s')"
  shows "reason_inv s'"
proof -
  have "trail_inv s' \<and> reason_inv s'"
  proof (rule propagate_invariant[where P = "\<lambda>s. trail_inv s \<and> reason_inv s", OF assms(3)])
    show "trail_inv s \<and> reason_inv s" using assms(1,2) by simp
    show "\<And>s n. trail_inv s \<and> reason_inv s \<Longrightarrow>
       trail_inv (s\<lparr>que_head := n\<rparr>) \<and> reason_inv (s\<lparr>que_head := n\<rparr>)"
      by (simp add: trail_inv_que_head)
    show "\<And>lit i s r s'. trail_inv s \<and> reason_inv s \<Longrightarrow> lidx lit < length (watchers s) \<Longrightarrow>
           i < length (watchers s ! lidx lit) \<Longrightarrow> visit lit i s = Inr (r, s') \<Longrightarrow>
           trail_inv s' \<and> reason_inv s'"
      using trail_inv_visit reason_inv_visit by blast
  qed
  then show ?thesis by simp
qed

lemma reason_inv_new_var:
  assumes tr: "trail_inv s" and inv: "reason_inv s"
  shows "reason_inv (new_var s)"
  unfolding reason_inv_def
proof (intro allI impI)
  have f: "heap (new_var s) = heap s" "que (new_var s) = que s"
    "reasons (new_var s) = reasons s @ [None]" "levels (new_var s) = levels s @ [None]"
    "assings (new_var s) = assings s @ [False]"
    by (simp_all add: new_var_def)
  fix i r assume i: "i < length (que (new_var s))"
    and r: "reasons (new_var s) ! vidx (que (new_var s) ! i) = Some r"
  from i f have i0: "i < length (que s)" by simp
  then have "que s ! i \<in> set (que s)" by simp
  from trail_inv_in_range[OF tr this] r f have "reasons s ! vidx (que s ! i) = Some r"
    by (simp add: nth_append)
  with inv i0 have ok: "reason_ok s i r" by (simp add: reason_inv_def)
  have ev: "\<forall>x. eval_lit x s = Inr LitBool_False \<longrightarrow> eval_lit x (new_var s) = Inr LitBool_False"
    by (auto simp: eval_lit_False_iff f nth_append)
  show "reason_ok (new_var s) i r"
    by (rule reason_ok_frame[OF ok]) (use ev f in simp_all)
qed

lemma trail_reason_inv_grow:
  "trail_inv s \<Longrightarrow> reason_inv s \<Longrightarrow> reason_inv (grow c s)"
  unfolding grow_def
proof (induction c arbitrary: s)
  case Nil then show ?case by simp
next
  case (Cons a c)
  show ?case
  proof (cases "vidx a \<ge> length (assings s)")
    case True
    from Cons.IH[OF trail_inv_new_var[OF Cons.prems(1)] reason_inv_new_var[OF Cons.prems]] True
    show ?thesis by simp
  next
    case False
    with Cons.IH[OF Cons.prems] show ?thesis by simp
  qed
qed

lemma reason_inv_heap_append:
  assumes "reason_inv s" "heap s' = heap s @ [c]" "que s' = que s" "reasons s' = reasons s"
    "levels s' = levels s" "assings s' = assings s"
  shows "reason_inv s'"
  unfolding reason_inv_def
proof (intro allI impI)
  fix i r assume i: "i < length (que s')" and r: "reasons s' ! vidx (que s' ! i) = Some r"
  with assms have ok: "reason_ok s i r" by (simp add: reason_inv_def)
  then have "r < length (heap s)" by (simp add: reason_ok_def)
  then have "heap s' ! r = heap s ! r" by (simp add: assms(2) nth_append)
  then show "reason_ok s' i r"
    by (rule reason_ok_frame[OF ok]) (simp_all add: assms eval_lit_cong[OF assms(5,6)])
qed

lemma reason_inv_attach_new:
  assumes "reason_inv s" "attach_clause (length (heap s)) b (s\<lparr>heap := heap s @ [c]\<rparr>) = Inr s'"
  shows "reason_inv s'"
  using attach_clause_fields[OF assms(2)]
  by (intro reason_inv_heap_append[OF assms(1)]) simp_all

lemma reason_inv_add_clause:
  assumes "trail_inv s" "reason_inv s" "add_clause c s = Inr s'"
  shows "reason_inv s'"
proof (cases "length c = 1")
  case True
  with assms(3) have "enqueue (c ! 0) None (grow c s) = Inr s'" by (simp add: add_clause_def Let_def)
  from reason_inv_enqueue[OF trail_inv_grow[OF assms(1)] trail_reason_inv_grow[OF assms(1,2)] this]
  show ?thesis by simp
next
  case False
  with assms(3) have "attach_clause (length (heap (grow c s))) False
      ((grow c s)\<lparr>heap := heap (grow c s) @ [c]\<rparr>) = Inr s'"
    by (simp add: add_clause_def make_shared_def Let_def)
  from reason_inv_attach_new[OF trail_reason_inv_grow[OF assms(1,2)] this] show ?thesis .
qed

lemma reason_inv_on_fixpoint:
  assumes "trail_inv s" "reason_inv s" "on_fixpoint s = Inr (r, s')"
  shows "reason_inv s'"
proof -
  from assms(3) obtain nxt where n: "first_undefined [0..<length (assings s)] s = Inr nxt"
    by (auto simp: on_fixpoint_def ebind_Inr_iff)
  show ?thesis
  proof (cases nxt)
    case None
    with assms n show ?thesis by (simp add: on_fixpoint_def)
  next
    case (Some l)
    with assms(3) n have "new_decision l None s = Inr s'"
      by (auto simp: on_fixpoint_def ebind_Inr_iff)
    then have v: "vidx l < length (levels s)" "levels s ! vidx l = None"
      and s': "s' = assign l None (top_level s + 1) s"
      by (simp_all add: new_decision_Inr[OF assms(1)])
    show ?thesis unfolding s' by (rule reason_inv_assign[OF assms(1,2) v]) simp
  qed
qed

lemma seed_learnt:
  assumes "seed lits d s a = Inr a'" "\<forall>x \<in> set (fst (snd a)). Q x"
    "\<And>x. eval_lit x s = Inr LitBool_False \<Longrightarrow> Q x"
  shows "\<forall>x \<in> set (fst (snd a')). Q x"
  using assms(1,2)
proof (induction lits arbitrary: a)
  case Nil then show ?case by simp
next
  case (Cons lit lits)
  obtain cv lrn cnt where a: "a = (cv, lrn, cnt)" by (cases a)
  from Cons.prems(1) have e: "eval_lit lit s = Inr LitBool_False"
    unfolding a by (auto simp: ebind_Inr_iff split: if_splits)
  with Cons.prems(1) have
    "(if opt_lt (levels s ! vidx lit) d
         then seed lits d s (insert (var lit) cv, lrn @ [lit], cnt)
         else seed lits d s (insert (var lit) cv, lrn, cnt + 1)) = Inr a'"
    unfolding a by (simp split: if_splits)
  then consider "seed lits d s (insert (var lit) cv, lrn @ [lit], cnt) = Inr a'"
    | "seed lits d s (insert (var lit) cv, lrn, cnt + 1) = Inr a'"
    by (auto split: if_splits)
  then show ?case
  proof cases
    case 1
    show ?thesis
      by (rule Cons.IH[OF 1]) (use Cons.prems(2) assms(3)[OF e] in \<open>simp add: a\<close>)
  next
    case 2
    show ?thesis
      by (rule Cons.IH[OF 2]) (use Cons.prems(2) in \<open>simp add: a\<close>)
  qed
qed

lemma resolve_learnt:
  assumes "resolve clits d s a = Inr a'" "\<forall>x \<in> set (fst (snd a)). Q x"
    "\<forall>x \<in> set clits. Q x"
  shows "\<forall>x \<in> set (fst (snd a')). Q x"
  using assms
proof (induction clits arbitrary: a)
  case Nil then show ?case by simp
next
  case (Cons clit clits)
  obtain cv lrn cnt where a: "a = (cv, lrn, cnt)" by (cases a)
  from Cons.prems(1) consider
      "resolve clits d s (cv, lrn, cnt) = Inr a'"
    | "resolve clits d s (insert (var clit) cv, lrn @ [clit], cnt) = Inr a'"
    | "resolve clits d s (insert (var clit) cv, lrn, cnt + 1) = Inr a'"
    unfolding a by (auto split: if_splits)
  then show ?case
  proof cases
    case 1
    show ?thesis by (rule Cons.IH[OF 1]) (use Cons.prems(2,3) in \<open>simp_all add: a\<close>)
  next
    case 2
    show ?thesis by (rule Cons.IH[OF 2]) (use Cons.prems(2,3) in \<open>simp_all add: a\<close>)
  next
    case 3
    show ?thesis by (rule Cons.IH[OF 3]) (use Cons.prems(2,3) in \<open>simp_all add: a\<close>)
  qed
qed

lemma walk_body_cases [consumes 1, case_names skip uip resolved]:
  assumes "walk_body i d s a = Inr res"
  obtains
    (skip) "i < length (que s)" "var (que s ! i) \<notin> fst a" "res = Inr a"
  | (uip) "i < length (que s)" "var (que s ! i) \<in> fst a" "snd (snd a) - 1 \<le> 0"
      "res = Inl (que s ! i, fst (snd a))"
  | (resolved) reason a1 where "i < length (que s)" "var (que s ! i) \<in> fst a"
      "\<not> snd (snd a) - 1 \<le> 0"
      "vidx (que s ! i) < length (reasons s)" "reasons s ! vidx (que s ! i) = Some reason"
      "reason < length (heap s)" "heap s ! reason \<noteq> []" "heap s ! reason ! 0 = que s ! i"
      "resolve (drop 1 (heap s ! reason)) d s
         (insert (var (que s ! i)) (fst a), fst (snd a), snd (snd a) - 1) = Inr a1"
      "res = Inr a1"
proof -
  from assms have i: "i < length (que s)" by (auto simp: walk_body_def Let_def split: if_splits)
  show ?thesis
  proof (cases "var (que s ! i) \<in> fst a")
    case False
    with assms i show ?thesis by (intro skip) (auto simp: walk_body_def Let_def)
  next
    case True
    show ?thesis
    proof (cases "snd (snd a) - 1 \<le> 0")
      case le: True
      with assms i True show ?thesis by (intro uip) (auto simp: walk_body_def Let_def)
    next
      case nle: False
      from assms i True nle have v: "vidx (que s ! i) < length (reasons s)"
        by (auto simp: walk_body_def Let_def split: if_splits)
      with assms i True nle obtain reason where r: "reasons s ! vidx (que s ! i) = Some reason"
        by (cases "reasons s ! vidx (que s ! i)") (auto simp: walk_body_def Let_def)
      from assms i True nle v r have h: "reason < length (heap s)"
        by (auto simp: walk_body_def Let_def split: if_splits)
      from assms i True nle v r h have c: "heap s ! reason \<noteq> []" "heap s ! reason ! 0 = que s ! i"
        by (auto simp: walk_body_def Let_def split: if_splits)
      from assms i True nle v r h c obtain a1 where
        "resolve (drop 1 (heap s ! reason)) d s
         (insert (var (que s ! i)) (fst a), fst (snd a), snd (snd a) - 1) = Inr a1" "res = Inr a1"
        by (auto simp: walk_body_def Let_def ebind_Inr_iff)
      with i True nle v r h c show ?thesis by (intro resolved)
    qed
  qed
qed

lemma walk_body_learnt:
  assumes inv: "reason_inv s" and w: "walk_body i d s a = Inr res"
    and Q: "\<And>x. eval_lit x s = Inr LitBool_False \<Longrightarrow> Q x"
    and a: "\<forall>x \<in> set (fst (snd a)). Q x"
  shows "case res of Inl found \<Rightarrow> fst found \<in> set (que s) \<and> (\<forall>x \<in> set (snd found). Q x)
                   | Inr a1 \<Rightarrow> \<forall>x \<in> set (fst (snd a1)). Q x"
  using w
proof (cases rule: walk_body_cases)
  case skip
  with a show ?thesis by simp
next
  case uip
  with a show ?thesis by simp
next
  case (resolved reason a1)
  from inv resolved(1,5) have ok: "reason_ok s i reason" by (simp add: reason_inv_def)
  have "\<forall>x \<in> set (drop 1 (heap s ! reason)). Q x"
  proof
    fix x assume "x \<in> set (drop 1 (heap s ! reason))"
    then obtain m where m: "m < length (drop 1 (heap s ! reason))" "x = drop 1 (heap s ! reason) ! m"
      by (auto simp: in_set_conv_nth)
    then have "x = heap s ! reason ! (1 + m)" "0 < 1 + m" "1 + m < length (heap s ! reason)"
      by simp_all
    with ok have "eval_lit x s = Inr LitBool_False" unfolding reason_ok_def by blast
    then show "Q x" by (rule Q)
  qed
  from resolve_learnt[OF resolved(9) _ this] a resolved(10) show ?thesis by simp
qed

lemma walk_learnt:
  assumes inv: "reason_inv s"
    and Q: "\<And>x. eval_lit x s = Inr LitBool_False \<Longrightarrow> Q x"
  shows "walk i d s a = Inr found \<Longrightarrow> \<forall>x \<in> set (fst (snd a)). Q x \<Longrightarrow>
         fst found \<in> set (que s) \<and> (\<forall>x \<in> set (snd found). Q x)"
proof (induction i arbitrary: a)
  case 0
  from "0.prems"(1) obtain res where w: "walk_body 0 d s a = Inr res"
    by (cases "walk_body 0 d s a") auto
  from walk_body_learnt[OF inv w Q "0.prems"(2)] "0.prems"(1) w show ?case
    by (cases res) auto
next
  case (Suc i)
  from Suc.prems(1) obtain res where w: "walk_body (Suc i) d s a = Inr res"
    by (cases "walk_body (Suc i) d s a") auto
  note b = walk_body_learnt[OF inv w Q Suc.prems(2)]
  show ?case
  proof (cases res)
    case (Inl f)
    with b Suc.prems(1) w show ?thesis by simp
  next
    case (Inr a1)
    with Suc.prems(1) w have "walk i d s a1 = Inr found" by simp
    from Suc.IH[OF this] b Inr show ?thesis by simp
  qed
qed

lemma back_jump_bound:
  "back_jump ls s b0 = Inr b \<Longrightarrow>
   b0 \<le> b \<and> (\<forall>x \<in> set ls. \<exists>lv. levels s ! vidx x = Some lv \<and> lv \<le> b)"
proof (induction ls arbitrary: b0)
  case Nil then show ?case by simp
next
  case (Cons l ls)
  from Cons.prems obtain lv where lv: "levels s ! vidx l = Some lv"
    and r: "back_jump ls s (max b0 lv) = Inr b"
    by (auto split: if_splits option.splits)
  from Cons.IH[OF r] lv show ?case by auto
qed

lemma swap_first_last:
  assumes "L = swap_elems 0 (length (xs @ [y]) - 1) (xs @ [y])"
  shows "L \<noteq> [] \<and> L ! 0 = y \<and> length L = length xs + 1 \<and> set (drop 1 L) \<subseteq> set xs"
proof (cases xs)
  case Nil
  with assms show ?thesis by (simp add: swap_elems_def)
next
  case (Cons x xs')
  have len: "length L = length xs + 1" using assms by simp
  have l0: "L ! 0 = y" using assms Cons by (simp add: swap_elems_def nth_append)
  have "set (drop 1 L) \<subseteq> set xs"
  proof
    fix z assume "z \<in> set (drop 1 L)"
    then obtain m where m: "m < length (drop 1 L)" "z = drop 1 L ! m"
      by (auto simp: in_set_conv_nth)
    then have m1: "Suc m < length xs + 1" "z = L ! Suc m" using len by simp_all
    show "z \<in> set xs"
    proof (cases "Suc m = length xs")
      case True
      with m1 assms Cons have "z = x" by (simp add: swap_elems_def)
      with Cons show ?thesis by simp
    next
      case False
      with m1 have lt: "Suc m < length xs" by simp
      with m1 assms have "z = xs ! Suc m" by (simp add: swap_elems_def nth_append)
      with lt show ?thesis by simp
    qed
  qed
  with len l0 show ?thesis by auto
qed

lemma analyze_learnt:
  assumes inv: "reason_inv s" and an: "analyze k s = Inr (L, b)"
  shows "L \<noteq> [] \<and> lit_not (L ! 0) \<in> set (que s) \<and> 0 \<le> b \<and>
         (\<forall>x \<in> set (drop 1 L). eval_lit x s = Inr LitBool_False \<and>
              (\<exists>lv. levels s ! vidx x = Some lv \<and> lv \<le> b))"
proof -
  from an obtain d where d: "decision_level s = Inr d"
    by (auto simp: analyze_def ebind_Inr_iff)
  with an have kl: "k < length (heap s)"
    by (auto simp: analyze_def split: if_splits)
  with an d obtain a where sd: "seed (heap s ! k) d s ({}, [], 0) = Inr a"
    by (auto simp: analyze_def ebind_Inr_iff)
  with an d kl have c: "snd (snd a) \<ge> 1" "que s \<noteq> []"
    by (auto simp: analyze_def split: if_splits)
  with an d kl sd obtain found where wk: "walk (length (que s) - 1) d s a = Inr found"
    by (auto simp: analyze_def ebind_Inr_iff)
  define L' where "L' = swap_elems 0 (length (snd found @ [lit_not (fst found)]) - 1)
                          (snd found @ [lit_not (fst found)])"
  from an d kl sd c wk have bj: "back_jump (drop 1 L') s 0 = Inr b" and L: "L = L'"
    by (auto simp: analyze_def Let_def ebind_Inr_iff L'_def)
  let ?Q = "\<lambda>x. eval_lit x s = Inr LitBool_False"
  have "\<forall>x \<in> set (fst (snd a)). ?Q x"
    by (rule seed_learnt[OF sd]) simp_all
  from walk_learnt[OF inv _ wk this]
  have f: "fst found \<in> set (que s)" "\<forall>x \<in> set (snd found). ?Q x" by simp_all
  from swap_first_last[OF L'_def] have sw: "L' \<noteq> []" "L' ! 0 = lit_not (fst found)"
    "set (drop 1 L') \<subseteq> set (snd found)" by simp_all
  from back_jump_bound[OF bj] have bb: "0 \<le> b"
    "\<forall>x \<in> set (drop 1 L'). \<exists>lv. levels s ! vidx x = Some lv \<and> lv \<le> b" by simp_all
  from f sw bb show ?thesis unfolding L by auto
qed

lemma level_of_lit_not [simp]: "level_of s (lit_not x) = level_of s x"
  by (simp add: level_of_def)

lemma learnt_false_after_backjump:
  assumes tr: "trail_inv s" and inv: "reason_inv s" and an: "analyze k s = Inr (L, b)"
    and pq: "pop_queue_until b s = Inr s1" and x: "x \<in> set (drop 1 L)"
  shows "eval_lit x s1 = Inr LitBool_False"
proof -
  from analyze_learnt[OF inv an] x obtain lv where
    e: "eval_lit x s = Inr LitBool_False" and lv: "levels s ! vidx x = Some lv" "lv \<le> b"
    by blast
  from pq have ne: "que s \<noteq> []" by (auto simp: pop_queue_until_def split: if_splits)
  from pop_queue_until_trail[OF tr ne, of b] pq obtain s0 n where
    p: "popped_ok b s s0 n" and hi: "\<forall>l \<in> set (drop n (que s)). level_of s l > b"
    and s1: "s1 = s0\<lparr>que_head := length (que s0) - 1\<rparr>" by auto
  have dist: "distinct (map vidx (que s))" using tr by (simp add: trail_inv_def)
  from False_on_trail[OF tr e] have t: "lit_not x \<in> set (que s)" .
  have "level_of s (lit_not x) = lv" using lv(1) by (simp add: level_of_def)
  with lv(2) hi have "lit_not x \<notin> set (drop n (que s))" by auto
  with t have "lit_not x \<in> set (take n (que s))"
    by (metis Un_iff append_take_drop_id set_append)
  from popped_keep[OF p dist this] have "levels s0 ! vidx x = levels s ! vidx x" by simp
  moreover from p have "assings s0 = assings s" "length (levels s0) = length (levels s)"
    by (simp_all add: popped_ok_def)
  ultimately have "eval_lit x s1 = eval_lit x s"
    unfolding s1 by (intro eval_lit_same_var) simp_all
  with e show ?thesis by simp
qed

lemma reason_inv_learn:
  assumes tr: "trail_inv s" and inv: "reason_inv s"
    and false: "\<forall>x \<in> set (drop 1 L). eval_lit x s = Inr LitBool_False"
    and ln: "learn L s = Inr s'"
  shows "reason_inv s'"
proof (cases "length L = 1")
  case True
  with ln have "enqueue (L ! 0) None s = Inr s'" by (simp add: learn_def)
  from reason_inv_enqueue[OF tr inv this] show ?thesis by simp
next
  case False
  define cr where "cr = length (heap s)"
  from False ln obtain s2 where a: "attach_clause cr True (s\<lparr>heap := heap s @ [L]\<rparr>) = Inr s2"
    and e: "enqueue (L ! 0) (Some cr) s2 = Inr s'"
    by (auto simp: learn_def make_shared_def ebind_Inr_iff cr_def)
  note f = attach_clause_fields[OF a]
  have tr2: "trail_inv s2" using trail_inv_attach_clause[OF _ a] tr by simp
  have inv2: "reason_inv s2" by (rule reason_inv_attach_new[OF inv a[unfolded cr_def]])
  have h2: "heap s2 = heap s @ [L]" using f(6) by simp
  have ev: "\<And>y. eval_lit y s2 = eval_lit y s"
    using f(1,4) by (intro eval_lit_cong) simp_all
  from a have len: "1 < length L"
    by (simp add: attach_clause_def Let_def cr_def split: if_splits)
  show ?thesis
  proof (rule reason_inv_enqueue[OF tr2 inv2 e])
    fix c assume "Some cr = Some c"
    then have c: "c = cr" by simp
    have hc: "heap s2 ! cr = L" by (simp add: h2 cr_def)
    have "\<forall>j. 0 < j \<and> j < length L \<longrightarrow> eval_lit (L ! j) s2 = Inr LitBool_False"
    proof (intro allI impI)
      fix j assume j: "0 < j \<and> j < length L"
      then have "L ! j \<in> set (drop 1 L)" by (intro nth_in_drop) simp_all
      with false ev show "eval_lit (L ! j) s2 = Inr LitBool_False" by simp
    qed
    with len show "c < length (heap s2) \<and> heap s2 ! c \<noteq> [] \<and> heap s2 ! c ! 0 = L ! 0 \<and>
        (\<forall>j. 0 < j \<and> j < length (heap s2 ! c) \<longrightarrow>
           eval_lit (heap s2 ! c ! j) s2 = Inr LitBool_False)"
      unfolding c hc by (auto simp: h2 cr_def)
  qed
qed

lemma reachable_reason_inv: "reachable s \<Longrightarrow> reason_inv s"
proof (induction rule: reachable.induct)
  case (init variable_num)
  show ?case by (rule reason_inv_Solver)
next
  case (add s clause s')
  from reason_inv_add_clause[OF reachable_trail_inv[OF add(1)] add(3) add(2)] show ?case .
next
  case (propagated s conflict s')
  from trail_reason_inv_propagate[OF reachable_trail_inv[OF propagated(1)] propagated(3) propagated(2)]
  show ?case .
next
  case (decided s s')
  from reason_inv_on_fixpoint[OF reachable_trail_inv[OF decided(1)] decided(3) decided(2)]
  show ?case .
next
  case (backjumped s conflict learnt_clause back_jump_level s')
  from reason_inv_pop_queue_until[OF reachable_trail_inv[OF backjumped(1)] backjumped(4) backjumped(3)]
  show ?case .
next
  case (learnt s conflict learnt_clause back_jump_level s1 s')
  note tr = reachable_trail_inv[OF learnt(1)]
  have tr1: "trail_inv s1" by (rule trail_inv_pop_queue_until[OF tr learnt(3)])
  have inv1: "reason_inv s1" by (rule reason_inv_pop_queue_until[OF tr learnt(5) learnt(3)])
  have "\<forall>x \<in> set (drop 1 learnt_clause). eval_lit x s1 = Inr LitBool_False"
    using learnt_false_after_backjump[OF tr learnt(5) learnt(2) learnt(3)] by blast
  from reason_inv_learn[OF tr1 inv1 this learnt(4)] show ?case .
qed

text \<open>
  C9: in every reachable state, when the trail entry \<open>i\<close> (an assigned literal) has the
  reason \<open>r\<close>, the clause \<open>r\<close> has that literal at position 0, and every other literal of
  the clause is False and is the negation of a trail entry before position \<open>i\<close>. The
  invariant is established where \<^verbatim>\<open>propagate\<close> enqueues a forced literal
  (\<open>reason_inv_examine\<close>) and where \<^verbatim>\<open>solve\<close> enqueues the asserting literal of a learnt
  clause after the backjump (\<open>reason_inv_learn\<close>), and the swaps of \<^verbatim>\<open>propagate\<close> keep it:
  they touch only clauses whose literal 0 is not True (\<open>reason_inv_heap_update\<close>).
\<close>

theorem reason_shape:
  assumes "reachable s" "i < length (que s)" "reasons s ! vidx (que s ! i) = Some r"
  shows "r < length (heap s) \<and> heap s ! r \<noteq> [] \<and> heap s ! r ! 0 = que s ! i \<and>
         (\<forall>j. 0 < j \<and> j < length (heap s ! r) \<longrightarrow>
            eval_lit (heap s ! r ! j) s = Inr LitBool_False \<and>
            (\<exists>i' < i. que s ! i' = lit_not (heap s ! r ! j)))"
proof -
  from reachable_reason_inv[OF assms(1)] assms(2,3) have "reason_ok s i r"
    by (simp add: reason_inv_def)
  then show ?thesis by (simp add: reason_ok_def)
qed

theorem reason_shape_witness:
  "reachable propagated_state \<and> que propagated_state ! 2 = Lit 2 True \<and>
   reasons propagated_state ! vidx (Lit 2 True) = Some 0 \<and>
   heap propagated_state ! 0 = [Lit 2 True, Lit 1 True, Lit 0 True] \<and>
   eval_lit (Lit 1 True) propagated_state = Inr LitBool_False \<and>
   eval_lit (Lit 0 True) propagated_state = Inr LitBool_False"
proof -
  have h: "(2::nat) < length (que propagated_state)"
    "que propagated_state ! 2 = Lit 2 True"
    "reasons propagated_state ! vidx (Lit 2 True) = Some 0"
    "heap propagated_state ! 0 = [Lit 2 True, Lit 1 True, Lit 0 True]"
    unfolding propagated_state_def by code_simp+
  have r: "reasons propagated_state ! vidx (que propagated_state ! 2) = Some 0"
    unfolding h(2) by (rule h(3))
  from reason_shape[OF reachable_propagated_state h(1) r]
  have "\<And>j. 0 < j \<Longrightarrow> j < 3 \<Longrightarrow>
      eval_lit ([Lit 2 True, Lit 1 True, Lit 0 True] ! j) propagated_state = Inr LitBool_False"
    unfolding h(4) by simp
  from this[of 1] this[of 2] show ?thesis
    using reachable_propagated_state h by simp
qed

section \<open>Runs of the search driver\<close>

text \<open>
  Every pass of the loop of \<^verbatim>\<open>solve\<close> leads from a reachable state to a reachable
  state, and so does a run of \<^verbatim>\<open>solve\<close> that returns: the invariants above hold in
  the state \<^verbatim>\<open>solve\<close> leaves behind.
\<close>

lemma on_conflict_reachable:
  assumes "reachable s" "on_conflict conflict s = Inr (r, s')"
  shows "reachable s'"
proof -
  from assms(2) obtain d where d: "decision_level s = Inr d"
    by (auto simp: on_conflict_def ebind_Inr_iff)
  show ?thesis
  proof (cases "d = 0")
    case True
    with assms d show ?thesis by (simp add: on_conflict_def)
  next
    case False
    with assms(2) d obtain a s1 where a: "analyze conflict s = Inr a"
      and p: "pop_queue_until (snd a) s = Inr s1" and l: "learn (fst a) s1 = Inr s'"
      by (auto simp: on_conflict_def ebind_Inr_iff)
    from a have "analyze conflict s = Inr (fst a, snd a)" by simp
    from reachable.learnt[OF assms(1) this p l] show ?thesis .
  qed
qed

lemma on_fixpoint_reachable:
  assumes "reachable s" "on_fixpoint s = Inr (r, s')"
  shows "reachable s'"
proof (cases r)
  case None
  with assms show ?thesis by (auto intro: reachable.decided)
next
  case (Some st)
  with assms(2) have "s' = s"
    by (auto simp: on_fixpoint_def ebind_Inr_iff split: option.splits)
  with assms(1) show ?thesis by simp
qed

lemma solve_step_reachable:
  assumes "reachable s" "solve_step s = Inr (r, s')"
  shows "reachable s'"
proof -
  from assms(2) obtain p where p: "propagate s = Inr p"
    and c: "(case fst p of Some conflict \<Rightarrow> on_conflict conflict (snd p)
             | None \<Rightarrow> on_fixpoint (snd p)) = Inr (r, s')"
    by (auto simp: solve_step_def ebind_Inr_iff)
  from p have "propagate s = Inr (fst p, snd p)" by simp
  from reachable.propagated[OF assms(1) this] have rp: "reachable (snd p)" .
  show ?thesis
  proof (cases "fst p")
    case None
    with c have "on_fixpoint (snd p) = Inr (r, s')" by simp
    from on_fixpoint_reachable[OF rp this] show ?thesis .
  next
    case (Some conflict)
    with c have "on_conflict conflict (snd p) = Inr (r, s')" by simp
    from on_conflict_reachable[OF rp this] show ?thesis .
  qed
qed

lemma solve_reachable_aux:
  assumes "solve s = Some y"
  shows "\<forall>st s'. y = Inr (st, s') \<longrightarrow> reachable s \<longrightarrow> reachable s'"
proof (rule solve.raw_induct[where P = "\<lambda>s y. \<forall>st s'. y = Inr (st, s') \<longrightarrow> reachable s \<longrightarrow> reachable s'", OF _ assms])
  fix f :: "solver \<Rightarrow> (error + Status \<times> solver) option" and s y
  assume IH: "\<And>x y. f x = Some y \<Longrightarrow> \<forall>st s'. y = Inr (st, s') \<longrightarrow> reachable x \<longrightarrow> reachable s'"
    and body: "(case solve_step s of Inl e \<Rightarrow> Some (Inl e) | Inr (None, s1) \<Rightarrow> f s1
                | Inr (Some st, s1) \<Rightarrow> Some (Inr (st, s1))) = Some y"
  show "\<forall>st s'. y = Inr (st, s') \<longrightarrow> reachable s \<longrightarrow> reachable s'"
  proof (intro allI impI)
    fix st s' assume y: "y = Inr (st, s')" and r: "reachable s"
    show "reachable s'"
    proof (cases "solve_step s")
      case (Inl e)
      with body y show ?thesis by simp
    next
      case (Inr p)
      obtain q s1 where p: "p = (q, s1)" by (cases p)
      from solve_step_reachable[OF r] Inr p have r1: "reachable s1" by simp
      show ?thesis
      proof (cases q)
        case None
        with body Inr p have "f s1 = Some y" by simp
        from IH[OF this] y r1 show ?thesis by simp
      next
        case (Some st')
        with body Inr p y have "s' = s1" by simp
        with r1 show ?thesis by simp
      qed
    qed
  qed
qed

lemma solve_reachable:
  "solve s = Some (Inr (st, s')) \<Longrightarrow> reachable s \<Longrightarrow> reachable s'"
  using solve_reachable_aux by blast

section \<open>The result of conflict analysis\<close>

text \<open>
  Where \<^verbatim>\<open>analyze\<close> returns, the literals it collected in the learnt clause lie below
  the conflict level, the literal put in front is the negation of a trail literal, and
  the level returned is the greatest level among the other literals (0 when there is
  none).
\<close>

lemma seed_lt:
  assumes "seed lits d s a = Inr a'" "\<forall>x \<in> set (fst (snd a)). opt_lt (levels s ! vidx x) d"
  shows "\<forall>x \<in> set (fst (snd a')). opt_lt (levels s ! vidx x) d"
  using assms
proof (induction lits arbitrary: a)
  case Nil then show ?case by simp
next
  case (Cons lit lits)
  obtain cv lrn cnt where a: "a = (cv, lrn, cnt)" by (cases a)
  from Cons.prems(1) have e: "eval_lit lit s = Inr LitBool_False"
    unfolding a by (auto simp: ebind_Inr_iff split: if_splits)
  show ?case
  proof (cases "opt_lt (levels s ! vidx lit) d")
    case True
    with Cons.prems(1) e have 1: "seed lits d s (insert (var lit) cv, lrn @ [lit], cnt) = Inr a'"
      unfolding a by (simp split: if_splits)
    show ?thesis by (rule Cons.IH[OF 1]) (use Cons.prems(2) True in \<open>simp add: a\<close>)
  next
    case False
    with Cons.prems(1) e have 2: "seed lits d s (insert (var lit) cv, lrn, cnt + 1) = Inr a'"
      unfolding a by (simp split: if_splits)
    show ?thesis by (rule Cons.IH[OF 2]) (use Cons.prems(2) in \<open>simp add: a\<close>)
  qed
qed

lemma resolve_lt:
  assumes "resolve clits d s a = Inr a'" "\<forall>x \<in> set (fst (snd a)). opt_lt (levels s ! vidx x) d"
  shows "\<forall>x \<in> set (fst (snd a')). opt_lt (levels s ! vidx x) d"
  using assms
proof (induction clits arbitrary: a)
  case Nil then show ?case by simp
next
  case (Cons clit clits)
  obtain cv lrn cnt where a: "a = (cv, lrn, cnt)" by (cases a)
  show ?case
  proof (cases "var clit \<in> cv")
    case True
    with Cons.prems(1) have 1: "resolve clits d s (cv, lrn, cnt) = Inr a'" unfolding a by simp
    show ?thesis by (rule Cons.IH[OF 1]) (use Cons.prems(2) in \<open>simp add: a\<close>)
  next
    case nin: False
    show ?thesis
    proof (cases "opt_lt (levels s ! vidx clit) d")
      case True
      with Cons.prems(1) nin have 2: "resolve clits d s (insert (var clit) cv, lrn @ [clit], cnt) = Inr a'"
        unfolding a by (simp split: if_splits)
      show ?thesis by (rule Cons.IH[OF 2]) (use Cons.prems(2) True in \<open>simp add: a\<close>)
    next
      case False
      with Cons.prems(1) nin have 3: "resolve clits d s (insert (var clit) cv, lrn, cnt + 1) = Inr a'"
        unfolding a by (simp split: if_splits)
      show ?thesis by (rule Cons.IH[OF 3]) (use Cons.prems(2) in \<open>simp add: a\<close>)
    qed
  qed
qed

lemma walk_lt:
  "walk i d s a = Inr found \<Longrightarrow> \<forall>x \<in> set (fst (snd a)). opt_lt (levels s ! vidx x) d \<Longrightarrow>
   \<forall>x \<in> set (snd found). opt_lt (levels s ! vidx x) d"
proof (induction i arbitrary: a)
  case 0
  from "0.prems"(1) obtain res where w: "walk_body 0 d s a = Inr res"
    by (cases "walk_body 0 d s a") auto
  from w show ?case
  proof (cases rule: walk_body_cases)
    case skip with "0.prems"(1) w show ?thesis by simp
  next
    case uip with "0.prems" w show ?thesis by auto
  next
    case (resolved reason a1) with "0.prems"(1) w show ?thesis by simp
  qed
next
  case (Suc i)
  from Suc.prems(1) obtain res where w: "walk_body (Suc i) d s a = Inr res"
    by (cases "walk_body (Suc i) d s a") auto
  from w show ?case
  proof (cases rule: walk_body_cases)
    case skip
    with Suc.prems(1) w have "walk i d s a = Inr found" by simp
    from Suc.IH[OF this Suc.prems(2)] show ?thesis .
  next
    case uip with Suc.prems w show ?thesis by auto
  next
    case (resolved reason a1)
    with Suc.prems(1) w have 1: "walk i d s a1 = Inr found" by simp
    from resolve_lt[OF resolved(9)] Suc.prems(2)
    have "\<forall>x \<in> set (fst (snd a1)). opt_lt (levels s ! vidx x) d" by simp
    from Suc.IH[OF 1 this] show ?thesis .
  qed
qed

lemma back_jump_max:
  "back_jump ls s b0 = Inr b \<Longrightarrow> b = b0 \<or> (\<exists>x \<in> set ls. levels s ! vidx x = Some b)"
proof (induction ls arbitrary: b0)
  case Nil then show ?case by simp
next
  case (Cons l ls)
  from Cons.prems obtain lv where lv: "levels s ! vidx l = Some lv"
    and r: "back_jump ls s (max b0 lv) = Inr b"
    by (auto split: if_splits option.splits)
  from Cons.IH[OF r] lv show ?case by (auto simp: max_def split: if_splits)
qed

lemma walk_uip_on_trail:
  "walk i d s a = Inr found \<Longrightarrow> \<exists>i' \<le> i. i' < length (que s) \<and> fst found = que s ! i'"
proof (induction i arbitrary: a)
  case 0
  from "0.prems"(1) obtain res where w: "walk_body 0 d s a = Inr res"
    by (cases "walk_body 0 d s a") auto
  from w show ?case
  proof (cases rule: walk_body_cases)
    case skip with "0.prems"(1) w show ?thesis by simp
  next
    case uip with "0.prems" w show ?thesis by auto
  next
    case (resolved reason a1) with "0.prems"(1) w show ?thesis by simp
  qed
next
  case (Suc i)
  from Suc.prems(1) obtain res where w: "walk_body (Suc i) d s a = Inr res"
    by (cases "walk_body (Suc i) d s a") auto
  from w show ?case
  proof (cases rule: walk_body_cases)
    case skip
    with Suc.prems(1) w have "walk i d s a = Inr found" by simp
    from Suc.IH[OF this] show ?thesis using le_Suc_eq by blast
  next
    case uip with Suc.prems w show ?thesis by auto
  next
    case (resolved reason a1)
    with Suc.prems(1) w have "walk i d s a1 = Inr found" by simp
    from Suc.IH[OF this] show ?thesis using le_Suc_eq by blast
  qed
qed

lemma analyze_result:
  assumes an: "analyze k s = Inr (L, b)" and d: "decision_level s = Inr d" and d0: "0 < d"
  shows "L \<noteq> [] \<and> lit_not (L ! 0) \<in> set (que s) \<and>
         (\<forall>x \<in> set (drop 1 L). \<exists>lv. levels s ! vidx x = Some lv \<and> lv \<le> b \<and> lv < d) \<and>
         (b = 0 \<or> (\<exists>x \<in> set (drop 1 L). levels s ! vidx x = Some b)) \<and>
         0 \<le> b \<and> b < d"
proof -
  from an d have kl: "k < length (heap s)"
    by (auto simp: analyze_def split: if_splits)
  with an d obtain a where sd: "seed (heap s ! k) d s ({}, [], 0) = Inr a"
    by (auto simp: analyze_def ebind_Inr_iff)
  with an d kl have c: "snd (snd a) \<ge> 1" "que s \<noteq> []"
    by (auto simp: analyze_def split: if_splits)
  with an d kl sd obtain found where wk: "walk (length (que s) - 1) d s a = Inr found"
    by (auto simp: analyze_def ebind_Inr_iff)
  define L' where "L' = swap_elems 0 (length (snd found @ [lit_not (fst found)]) - 1)
                          (snd found @ [lit_not (fst found)])"
  from an d kl sd c wk have bj: "back_jump (drop 1 L') s 0 = Inr b" and L: "L = L'"
    by (auto simp: analyze_def Let_def ebind_Inr_iff L'_def)
  have "\<forall>x \<in> set (fst (snd a)). opt_lt (levels s ! vidx x) d"
    by (rule seed_lt[OF sd]) simp
  from walk_lt[OF wk this] have lt: "\<forall>x \<in> set (snd found). opt_lt (levels s ! vidx x) d" .
  from walk_uip_on_trail[OF wk] have u: "fst found \<in> set (que s)" by auto
  from swap_first_last[OF L'_def] have sw: "L' \<noteq> []" "L' ! 0 = lit_not (fst found)"
    "set (drop 1 L') \<subseteq> set (snd found)" by simp_all
  from back_jump_bound[OF bj] have bb: "0 \<le> b"
    "\<forall>x \<in> set (drop 1 L'). \<exists>lv. levels s ! vidx x = Some lv \<and> lv \<le> b" by simp_all
  have lv: "\<forall>x \<in> set (drop 1 L'). \<exists>lv. levels s ! vidx x = Some lv \<and> lv \<le> b \<and> lv < d"
  proof
    fix x assume x: "x \<in> set (drop 1 L')"
    with bb(2) obtain lv where l: "levels s ! vidx x = Some lv" "lv \<le> b" by blast
    from x sw(3) lt have "opt_lt (levels s ! vidx x) d" by blast
    with l show "\<exists>lv. levels s ! vidx x = Some lv \<and> lv \<le> b \<and> lv < d"
      by (simp add: opt_lt_def)
  qed
  from back_jump_max[OF bj] have mx: "b = 0 \<or> (\<exists>x \<in> set (drop 1 L'). levels s ! vidx x = Some b)" .
  have "b < d"
  proof (cases "b = 0")
    case True with d0 show ?thesis by simp
  next
    case False
    with mx obtain x where "x \<in> set (drop 1 L')" "levels s ! vidx x = Some b" by blast
    with lv show ?thesis by force
  qed
  with sw u bb(1) lv mx show ?thesis unfolding L by simp
qed

text \<open>
  \<^verbatim>\<open>analyze\<close> returns when the conflicting clause mentions no variable twice: in a
  state with the invariants of the trail and of the reasons, for a clause whose literals
  are all False, one of them at the current level, and with a reason for every trail entry
  of that level but the first. The counter then is the number of pending variables at
  every position of the walk, so the walk meets the first UIP before it leaves the trail.
\<close>

lemma finite_pending [simp]: "finite (pending s d n cv)"
  by (simp add: pending_def)

lemma pending_mono: "cv \<subseteq> cv' \<Longrightarrow> pending s d n cv \<subseteq> pending s d n cv'"
  by (auto simp: pending_def)

lemma pending_0 [simp]: "pending s d 0 cv = {}"
  by (simp add: pending_def)

lemma pending_insert_other:
  "levels s ! v \<noteq> Some d \<Longrightarrow> pending s d n (insert v cv) = pending s d n cv"
  by (auto simp: pending_def)

lemma pending_insert_new:
  "v \<in> vidx ` set (take n (que s)) \<Longrightarrow> levels s ! v = Some d \<Longrightarrow>
   pending s d n (insert v cv) = insert v (pending s d n cv)"
  by (auto simp: pending_def)

lemma pending_notin: "v \<notin> cv \<Longrightarrow> v \<notin> pending s d n cv"
  by (simp add: pending_def)

lemma pending_Suc_skip:
  "n < length (que s) \<Longrightarrow> vidx (que s ! n) \<notin> cv \<Longrightarrow> pending s d (Suc n) cv = pending s d n cv"
  by (auto simp: pending_def take_Suc_conv_app_nth)

lemma pending_Suc_sub:
  "n < length (que s) \<Longrightarrow>
   pending s d (Suc n) cv \<subseteq> insert (vidx (que s ! n)) (pending s d n cv)"
  by (auto simp: pending_def take_Suc_conv_app_nth)

lemma pending_Suc_hit:
  assumes "n < length (que s)" "vidx (que s ! n) \<in> cv" "levels s ! vidx (que s ! n) = Some d"
  shows "pending s d (Suc n) cv = insert (vidx (que s ! n)) (pending s d n cv)"
  using assms by (auto simp: pending_def take_Suc_conv_app_nth)

lemma pending_Suc_fresh:
  assumes "distinct (map vidx (que s))" "n < length (que s)"
  shows "vidx (que s ! n) \<notin> pending s d n cv"
proof
  assume "vidx (que s ! n) \<in> pending s d n cv"
  then obtain l where l: "l \<in> set (take n (que s))" "vidx l = vidx (que s ! n)"
    by (auto simp: pending_def)
  have "que s ! n \<in> set (drop n (que s))" using assms(2) by (simp add: nth_in_drop)
  from distinct_take_drop_disjoint[OF assms(1) l(1) this] l(2) show False by simp
qed

lemma level_sorted:
  assumes "trail_inv s" "j \<le> i" "i < length (que s)"
  shows "level_of s (que s ! j) \<le> level_of s (que s ! i)"
proof -
  from assms(1) have "sorted (map (level_of s) (que s))"
    unfolding trail_inv_def using stair_sorted by blast
  from sorted_nth_mono[OF this, of j i] assms(2,3) show ?thesis by simp
qed

lemma level_le_top:
  assumes "trail_inv s" "l \<in> set (que s)"
  shows "level_of s l \<le> top_level s"
proof -
  from assms(2) obtain j where j: "j < length (que s)" "l = que s ! j"
    by (auto simp: in_set_conv_nth)
  then have ne: "que s \<noteq> []" by auto
  from j have "j \<le> length (que s) - 1" "length (que s) - 1 < length (que s)" by simp_all
  from level_sorted[OF assms(1) this] j ne show ?thesis
    by (simp add: top_level_def last_conv_nth)
qed

lemma false_lit_level:
  assumes "trail_inv s" "eval_lit c s = Inr LitBool_False"
  shows "vidx c < length (levels s) \<and> vidx c \<in> vidx ` set (que s) \<and>
         (\<exists>lv. levels s ! vidx c = Some lv \<and> lv \<le> top_level s)"
proof -
  from assms(2) have r: "vidx c < length (levels s)" and n: "levels s ! vidx c \<noteq> None"
    by (simp_all add: eval_lit_False_iff)
  from n obtain lv where lv: "levels s ! vidx c = Some lv" by auto
  from trail_inv_assigned[OF assms(1) r lv] obtain l where l: "l \<in> set (que s)" "vidx l = vidx c"
    by auto
  from l(2) lv have "level_of s l = lv" by (simp add: level_of_def)
  with level_le_top[OF assms(1) l(1)] have le: "lv \<le> top_level s" by simp
  from l have "vidx c \<in> vidx ` set (que s)" by (metis imageI)
  with r lv le show ?thesis by simp
qed

lemma resolve_returns:
  assumes "\<forall>c \<in> set clits. vidx c < length (levels s) \<and> vidx c \<in> vidx ` set (take n (que s)) \<and>
             (\<exists>lv. levels s ! vidx c = Some lv \<and> lv \<le> d)"
  shows "\<exists>cv' lrn'. resolve clits d s (cv, lrn, int (card (pending s d n cv)))
           = Inr (cv', lrn', int (card (pending s d n cv'))) \<and> cv \<subseteq> cv'"
  using assms
proof (induction clits arbitrary: cv lrn)
  case Nil
  show ?case by simp
next
  case (Cons clit clits)
  from Cons.prems have r: "vidx clit < length (levels s)"
    and t: "vidx clit \<in> vidx ` set (take n (que s))"
    and rest: "\<forall>c \<in> set clits. vidx c < length (levels s) \<and> vidx c \<in> vidx ` set (take n (que s)) \<and>
             (\<exists>lv. levels s ! vidx c = Some lv \<and> lv \<le> d)"
    by simp_all
  from Cons.prems obtain lv where lv: "levels s ! vidx clit = Some lv" "lv \<le> d" by auto
  show ?case
  proof (cases "var clit \<in> cv")
    case True
    from Cons.IH[OF rest, of cv lrn] True show ?thesis by simp
  next
    case nin: False
    show ?thesis
    proof (cases "lv < d")
      case True
      with lv have "levels s ! vidx clit \<noteq> Some d" by simp
      from pending_insert_other[OF this]
      have p: "pending s d n (insert (var clit) cv) = pending s d n cv" by (simp add: vidx_def)
      from Cons.IH[OF rest, of "insert (var clit) cv" "lrn @ [clit]"] p nin r lv True
      show ?thesis by (auto simp: opt_lt_def)
    next
      case False
      with lv have l: "levels s ! vidx clit = Some d" by simp
      from pending_insert_new[OF t l]
      have p: "pending s d n (insert (var clit) cv) = insert (var clit) (pending s d n cv)"
        by (simp add: vidx_def)
      from nin have "var clit \<notin> pending s d n cv" by (rule pending_notin)
      with p have c: "int (card (pending s d n (insert (var clit) cv)))
                     = int (card (pending s d n cv)) + 1" by simp
      from Cons.IH[OF rest, of "insert (var clit) cv" lrn] c nin r l
      show ?thesis by (auto simp: opt_lt_def)
    qed
  qed
qed

lemma seed_returns:
  assumes "\<forall>c \<in> set lits. eval_lit c s = Inr LitBool_False \<and> vidx c < length (levels s) \<and>
             vidx c \<in> vidx ` set (take n (que s)) \<and>
             (\<exists>lv. levels s ! vidx c = Some lv \<and> lv \<le> d)"
    and "distinct (map vidx lits)" "vidx ` set lits \<inter> cv = {}"
  shows "\<exists>lrn'. seed lits d s (cv, lrn, int (card (pending s d n cv)))
           = Inr (cv \<union> vidx ` set lits, lrn', int (card (pending s d n (cv \<union> vidx ` set lits))))"
  using assms
proof (induction lits arbitrary: cv lrn)
  case Nil
  show ?case by simp
next
  case (Cons lit lits)
  from Cons.prems(1) have e: "eval_lit lit s = Inr LitBool_False"
    and r: "vidx lit < length (levels s)"
    and t: "vidx lit \<in> vidx ` set (take n (que s))"
    and rest: "\<forall>c \<in> set lits. eval_lit c s = Inr LitBool_False \<and> vidx c < length (levels s) \<and>
             vidx c \<in> vidx ` set (take n (que s)) \<and>
             (\<exists>lv. levels s ! vidx c = Some lv \<and> lv \<le> d)"
    by simp_all
  from Cons.prems(1) obtain lv where lv: "levels s ! vidx lit = Some lv" "lv \<le> d" by auto
  from Cons.prems(2) have dis: "distinct (map vidx lits)" and nl: "vidx lit \<notin> vidx ` set lits"
    by simp_all
  from Cons.prems(3) have nin: "vidx lit \<notin> cv" by simp
  from Cons.prems(3) nl have int: "vidx ` set lits \<inter> insert (vidx lit) cv = {}" by auto
  have u: "insert (vidx lit) cv \<union> vidx ` set lits = cv \<union> vidx ` set (lit # lits)" by auto
  show ?case
  proof (cases "lv < d")
    case True
    with lv have "levels s ! vidx lit \<noteq> Some d" by simp
    from pending_insert_other[OF this]
    have p: "pending s d n (insert (vidx lit) cv) = pending s d n cv" .
    from Cons.IH[OF rest dis int, of "lrn @ [lit]"] obtain lrn' where
      "seed lits d s (insert (vidx lit) cv, lrn @ [lit], int (card (pending s d n cv)))
         = Inr (cv \<union> vidx ` set (lit # lits), lrn',
                int (card (pending s d n (cv \<union> vidx ` set (lit # lits)))))"
      unfolding p u by blast
    with e r lv True show ?thesis by (simp add: opt_lt_def vidx_def)
  next
    case False
    with lv have l: "levels s ! vidx lit = Some d" by simp
    from pending_insert_new[OF t l]
    have p: "pending s d n (insert (vidx lit) cv) = insert (vidx lit) (pending s d n cv)" .
    from nin have "vidx lit \<notin> pending s d n cv" by (rule pending_notin)
    with p have c: "int (card (pending s d n (insert (vidx lit) cv)))
                   = int (card (pending s d n cv)) + 1" by simp
    from Cons.IH[OF rest dis int, of lrn] obtain lrn' where
      "seed lits d s (insert (vidx lit) cv, lrn, int (card (pending s d n cv)) + 1)
         = Inr (cv \<union> vidx ` set (lit # lits), lrn',
                int (card (pending s d n (cv \<union> vidx ` set (lit # lits)))))"
      unfolding c u by blast
    with e r l show ?thesis by (simp add: opt_lt_def vidx_def)
  qed
qed


lemma walk_body_skip:
  "i < length (que s) \<Longrightarrow> var (que s ! i) \<notin> cv \<Longrightarrow>
   walk_body i d s (cv, lrn, cnt) = Inr (Inr (cv, lrn, cnt))"
  by (simp add: walk_body_def)

lemma walk_body_uip:
  "i < length (que s) \<Longrightarrow> var (que s ! i) \<in> cv \<Longrightarrow> cnt - 1 \<le> 0 \<Longrightarrow>
   walk_body i d s (cv, lrn, cnt) = Inr (Inl (que s ! i, lrn))"
  by (simp add: walk_body_def)

lemma walk_body_resolve:
  "i < length (que s) \<Longrightarrow> var (que s ! i) \<in> cv \<Longrightarrow> \<not> cnt - 1 \<le> 0 \<Longrightarrow>
   vidx (que s ! i) < length (reasons s) \<Longrightarrow> reasons s ! vidx (que s ! i) = Some r \<Longrightarrow>
   r < length (heap s) \<Longrightarrow> heap s ! r \<noteq> [] \<Longrightarrow> heap s ! r ! 0 = que s ! i \<Longrightarrow>
   resolve (drop 1 (heap s ! r)) d s (cv, lrn, cnt - 1) = Inr a1 \<Longrightarrow>
   walk_body i d s (cv, lrn, cnt) = Inr (Inr a1)"
  by (simp add: walk_body_def Let_def insert_absorb)

lemma walk_body_progress:
  assumes ti: "trail_inv s" and ri: "reason_inv s" and top: "top_level s = d"
    and ra: "reasons_at s d"
    and i: "i < length (que s)" and c1: "1 \<le> card (pending s d (Suc i) cv)"
  shows "(\<exists>found. walk_body i d s (cv, lrn, int (card (pending s d (Suc i) cv))) = Inr (Inl found)) \<or>
         (\<exists>cv' lrn'. walk_body i d s (cv, lrn, int (card (pending s d (Suc i) cv)))
                        = Inr (Inr (cv', lrn', int (card (pending s d i cv')))) \<and>
                      1 \<le> card (pending s d i cv'))"
proof (cases "var (que s ! i) \<in> cv")
  case False
  then have "pending s d (Suc i) cv = pending s d i cv"
    using pending_Suc_skip[OF i] by (simp add: vidx_def)
  with walk_body_skip[OF i False] c1 show ?thesis by simp
next
  case True
  let ?cnt = "int (card (pending s d (Suc i) cv))"
  show ?thesis
  proof (cases "?cnt - 1 \<le> 0")
    case le: True
    from walk_body_uip[OF i True le] show ?thesis by simp
  next
    case nle: False
    then have c2: "2 \<le> card (pending s d (Suc i) cv)" by simp
    from ti have dist: "distinct (map vidx (que s))" by (simp add: trail_inv_def)
    have ne: "pending s d i cv \<noteq> {}"
    proof
      assume "pending s d i cv = {}"
      with pending_Suc_sub[OF i, of d cv]
      have "pending s d (Suc i) cv \<subseteq> {vidx (que s ! i)}" by simp
      then have "card (pending s d (Suc i) cv) \<le> card {vidx (que s ! i)}"
        by (intro card_mono) simp_all
      with c2 show False by simp
    qed
    then obtain v where v: "v \<in> pending s d i cv" by blast
    then obtain l where l: "l \<in> set (take i (que s))" "vidx l = v" "levels s ! v = Some d"
      by (auto simp: pending_def)
    from l(1) obtain j where j: "j < i" "l = que s ! j"
      using i by (auto simp: in_set_conv_nth)
    from l j have lj: "level_of s (que s ! j) = d" by (simp add: level_of_def)
    from ra i j(1) lj obtain r where r: "reasons s ! vidx (que s ! i) = Some r"
      unfolding reasons_at_def by blast
    from i have mem: "que s ! i \<in> set (que s)" by simp
    from trail_inv_in_range[OF ti mem] have rng: "vidx (que s ! i) < length (reasons s)"
      and asg: "levels s ! vidx (que s ! i) \<noteq> None" by simp_all
    from level_sorted[OF ti _ i, of j] j(1) lj have "d \<le> level_of s (que s ! i)" by simp
    moreover from level_le_top[OF ti mem] top have "level_of s (que s ! i) \<le> d" by simp
    ultimately have "level_of s (que s ! i) = d" by simp
    with asg have li: "levels s ! vidx (que s ! i) = Some d" by (auto simp: level_of_def)
    from True have "vidx (que s ! i) \<in> cv" by (simp add: vidx_def)
    from pending_Suc_hit[OF i this li]
    have "pending s d (Suc i) cv = insert (vidx (que s ! i)) (pending s d i cv)" .
    with pending_Suc_fresh[OF dist i, of d cv]
    have cnt1: "?cnt - 1 = int (card (pending s d i cv))" by simp
    from ri i r have ok: "reason_ok s i r" by (simp add: reason_inv_def)
    then have h: "r < length (heap s)" "heap s ! r \<noteq> []" "heap s ! r ! 0 = que s ! i"
      by (simp_all add: reason_ok_def)
    have cl: "\<forall>c \<in> set (drop 1 (heap s ! r)). vidx c < length (levels s) \<and>
               vidx c \<in> vidx ` set (take i (que s)) \<and>
               (\<exists>lv. levels s ! vidx c = Some lv \<and> lv \<le> d)"
    proof
      fix c assume "c \<in> set (drop 1 (heap s ! r))"
      then obtain m where m: "m < length (drop 1 (heap s ! r))" "c = drop 1 (heap s ! r) ! m"
        by (auto simp: in_set_conv_nth)
      then have "c = heap s ! r ! (1 + m)" "0 < 1 + m" "1 + m < length (heap s ! r)"
        by simp_all
      with ok have e: "eval_lit c s = Inr LitBool_False"
        and "\<exists>i' < i. que s ! i' = lit_not c" unfolding reason_ok_def by blast+
      then obtain i' where i': "i' < i" "que s ! i' = lit_not c" by blast
      from i' i have "lit_not c \<in> set (take i (que s))" by (metis nth_in_take less_trans)
      then have "vidx (lit_not c) \<in> vidx ` set (take i (que s))" by (rule imageI)
      then have "vidx c \<in> vidx ` set (take i (que s))" by (simp add: vidx_lit_not)
      with false_lit_level[OF ti e] top
      show "vidx c < length (levels s) \<and> vidx c \<in> vidx ` set (take i (que s)) \<and>
            (\<exists>lv. levels s ! vidx c = Some lv \<and> lv \<le> d)" by simp
    qed
    from resolve_returns[OF cl, of cv lrn] obtain cv' lrn' where
      rs: "resolve (drop 1 (heap s ! r)) d s (cv, lrn, ?cnt - 1)
             = Inr (cv', lrn', int (card (pending s d i cv')))" and sub: "cv \<subseteq> cv'"
      unfolding cnt1 by blast
    from v pending_mono[OF sub] have "v \<in> pending s d i cv'" by blast
    then have "pending s d i cv' \<noteq> {}" by blast
    then have "1 \<le> card (pending s d i cv')" by (simp add: Suc_le_eq card_gt_0_iff)
    with walk_body_resolve[OF i True nle rng r h rs] show ?thesis by blast
  qed
qed

lemma walk_returns:
  assumes ti: "trail_inv s" and ri: "reason_inv s" and top: "top_level s = d"
    and ra: "reasons_at s d"
  shows "i < length (que s) \<Longrightarrow> 1 \<le> card (pending s d (Suc i) cv) \<Longrightarrow>
         \<exists>found. walk i d s (cv, lrn, int (card (pending s d (Suc i) cv))) = Inr found"
proof (induction i arbitrary: cv lrn)
  case 0
  from walk_body_progress[OF ti ri top ra "0.prems", of lrn] show ?case by auto
next
  case (Suc i)
  from walk_body_progress[OF ti ri top ra Suc.prems, of lrn]
  consider found where
      "walk_body (Suc i) d s (cv, lrn, int (card (pending s d (Suc (Suc i)) cv))) = Inr (Inl found)"
    | cv' lrn' where
      "walk_body (Suc i) d s (cv, lrn, int (card (pending s d (Suc (Suc i)) cv)))
         = Inr (Inr (cv', lrn', int (card (pending s d (Suc i) cv'))))"
      "1 \<le> card (pending s d (Suc i) cv')"
    by blast
  then show ?case
  proof cases
    case 1
    then show ?thesis by simp
  next
    case 2
    from Suc.prems(1) have "i < length (que s)" by simp
    from Suc.IH[OF this 2(2), of lrn'] 2(1) show ?thesis by simp
  qed
qed

lemma back_jump_returns:
  "\<forall>x \<in> set ls. vidx x < length (levels s) \<and> levels s ! vidx x \<noteq> None \<Longrightarrow>
   \<exists>b. back_jump ls s b0 = Inr b"
  by (induction ls arbitrary: b0) auto


lemma analyze_returns:
  assumes ti: "trail_inv s" and ri: "reason_inv s" and ra: "reasons_at s (top_level s)"
    and k: "k < length (heap s)"
    and f: "\<forall>x \<in> set (heap s ! k). eval_lit x s = Inr LitBool_False"
    and dis: "distinct (map vidx (heap s ! k))"
    and top: "\<exists>x \<in> set (heap s ! k). level_of s x = top_level s"
  shows "\<exists>L b. analyze k s = Inr (L, b)"
proof -
  define d where "d = top_level s"
  define n where "n = length (que s)"
  define cv where "cv = vidx ` set (heap s ! k)"
  have dl: "decision_level s = Inr d" unfolding d_def by (rule decision_level_eq[OF ti])
  have lits: "\<forall>c \<in> set (heap s ! k). eval_lit c s = Inr LitBool_False \<and>
                vidx c < length (levels s) \<and> vidx c \<in> vidx ` set (take n (que s)) \<and>
                (\<exists>lv. levels s ! vidx c = Some lv \<and> lv \<le> d)"
  proof
    fix c assume "c \<in> set (heap s ! k)"
    with f have e: "eval_lit c s = Inr LitBool_False" by blast
    from false_lit_level[OF ti e] e
    show "eval_lit c s = Inr LitBool_False \<and>
          vidx c < length (levels s) \<and> vidx c \<in> vidx ` set (take n (que s)) \<and>
          (\<exists>lv. levels s ! vidx c = Some lv \<and> lv \<le> d)" by (simp add: n_def d_def)
  qed
  from seed_returns[OF lits dis, of "{}" "[]"] obtain lrn where
    sd: "seed (heap s ! k) d s ({}, [], 0) = Inr (cv, lrn, int (card (pending s d n cv)))"
    by (auto simp: cv_def pending_def)
  from top obtain x where x: "x \<in> set (heap s ! k)" "level_of s x = d" unfolding d_def by blast
  from lits x(1) obtain lv where xl: "vidx x \<in> vidx ` set (take n (que s))"
    "levels s ! vidx x = Some lv" by blast
  with x(2) have "levels s ! vidx x = Some d" by (simp add: level_of_def)
  with xl(1) x(1) have "vidx x \<in> pending s d n cv" by (simp add: pending_def cv_def)
  then have "pending s d n cv \<noteq> {}" by blast
  then have c1: "1 \<le> card (pending s d n cv)" by (simp add: Suc_le_eq card_gt_0_iff)
  from xl(1) have ne: "que s \<noteq> []" by auto
  then have i: "length (que s) - 1 < length (que s)" and sn: "Suc (length (que s) - 1) = n"
    by (simp_all add: n_def)
  from walk_returns[OF ti ri refl ra i, of cv lrn] c1 obtain found where
    wk: "walk (length (que s) - 1) d s (cv, lrn, int (card (pending s d n cv))) = Inr found"
    unfolding sn d_def by auto
  define L where "L = swap_elems 0 (length (snd found @ [lit_not (fst found)]) - 1)
                        (snd found @ [lit_not (fst found)])"
  let ?Q = "\<lambda>x. eval_lit x s = Inr LitBool_False"
  have "\<forall>x \<in> set (fst (snd (cv, lrn, int (card (pending s d n cv))))). ?Q x"
    by (rule seed_learnt[OF sd]) simp_all
  from walk_learnt[OF ri _ wk this] have fl: "\<forall>x \<in> set (snd found). ?Q x" by simp
  from swap_first_last[OF L_def] have "set (drop 1 L) \<subseteq> set (snd found)" by simp
  with fl have "\<forall>x \<in> set (drop 1 L). vidx x < length (levels s) \<and> levels s ! vidx x \<noteq> None"
    by (auto simp: eval_lit_False_iff)
  from back_jump_returns[OF this, of 0] obtain b where bj: "back_jump (drop 1 L) s 0 = Inr b" ..
  from dl k sd c1 ne wk bj have "analyze k s = Inr (L, b)"
    by (simp add: analyze_def Let_def L_def)
  then show ?thesis by blast
qed

text \<open>The conflict of the example state: the analysis learns \<open>{x0}\<close> and level 0.\<close>

lemma reachable_conflict_state: "reachable conflict_state"
proof -
  define s1 where "s1 = \<lparr>assings = [False, False], status = None, clauses = [0],
        learnts = [], watchers = [[], [0], [], [0]], reasons = [None, None],
        levels = [None, None], que = [], que_head = 0, heap = [[0, 2]]\<rparr>"
  define s2 where "s2 = s1\<lparr>clauses := [0, 1], watchers := [[], [0, 1], [1], [0]],
        heap := [[0, 2], [0, 3]]\<rparr>"
  define s3 where "s3 = s2\<lparr>levels := [Some 1, None], que := [1]\<rparr>"
  have "add_clause [Lit 0 True, Lit 1 True] (Solver 2) = Inr s1"
    unfolding s1_def by code_simp
  from reachable.add[OF reachable.init this] have r1: "reachable s1" .
  have "add_clause [Lit 0 True, Lit 1 False] s1 = Inr s2"
    unfolding s1_def s2_def by code_simp
  from reachable.add[OF r1 this] have r2: "reachable s2" .
  have "on_fixpoint s2 = Inr (None, s3)" unfolding s1_def s2_def s3_def by code_simp
  from reachable.decided[OF r2 this] have r3: "reachable s3" .
  have "propagate s3 = Inr (Some 1, conflict_state)"
    unfolding s1_def s2_def s3_def conflict_state_def by code_simp
  from reachable.propagated[OF r3 this] show ?thesis .
qed

lemma analyze_returns_example:
  "reasons_at conflict_state (top_level conflict_state) \<and>
   map (\<lambda>x. eval_lit x conflict_state) (heap conflict_state ! 1)
     = [Inr LitBool_False, Inr LitBool_False] \<and>
   distinct (map vidx (heap conflict_state ! 1)) \<and>
   level_of conflict_state 3 = top_level conflict_state \<and>
   analyze 1 conflict_state = Inr ([0], 0)"
proof -
  have ra: "reasons_at conflict_state (top_level conflict_state)"
    by (simp add: reasons_at_def conflict_state_def less_Suc_eq nth_Cons' vidx_def var_def
        drop_bit_Suc)
  have ev: "map (\<lambda>x. eval_lit x conflict_state) (heap conflict_state ! 1)
     = [Inr LitBool_False, Inr LitBool_False]"
    unfolding conflict_state_def by code_simp
  have di: "distinct (map vidx (heap conflict_state ! 1))"
    unfolding conflict_state_def by code_simp
  have lv: "level_of conflict_state 3 = top_level conflict_state"
    unfolding conflict_state_def by code_simp
  have k: "1 < length (heap conflict_state)" by (simp add: conflict_state_def)
  from ev have f: "\<forall>x \<in> set (heap conflict_state ! 1). eval_lit x conflict_state = Inr LitBool_False"
    by (simp add: conflict_state_def)
  from lv have tp: "\<exists>x \<in> set (heap conflict_state ! 1). level_of conflict_state x = top_level conflict_state"
    by (simp add: conflict_state_def)
  from analyze_returns[OF reachable_trail_inv[OF reachable_conflict_state]
      reachable_reason_inv[OF reachable_conflict_state] ra k f di tp]
  obtain L b where "analyze 1 conflict_state = Inr (L, b)" by blast
  moreover have "analyze 1 conflict_state = Inr ([0], 0)"
    unfolding conflict_state_def by code_simp
  ultimately show ?thesis using ra ev di lv by simp
qed

section \<open>Undoing the trail\<close>

lemma reachable_decided_state: "reachable decided_state"
proof -
  have "on_fixpoint (Solver 1) = Inr (None, decided_state)"
    unfolding decided_state_def by code_simp
  from reachable.decided[OF reachable.init this] show ?thesis .
qed

text \<open>
  C7: from a reachable state whose decision level \<open>d\<close> exceeds \<open>b\<close> (a level, so
  \<open>0 \<le> b\<close>), \<^verbatim>\<open>pop_queue_until(b)\<close> returns, \<^verbatim>\<open>decision_level()\<close> is then exactly
  \<open>b\<close>, and every variable that still has a level has a level \<open>\<le> b\<close>.
\<close>

theorem undo_until_level:
  assumes "reachable s" "decision_level s = Inr d" "0 \<le> b" "b < d"
  shows "\<exists>s'. pop_queue_until b s = Inr s' \<and> decision_level s' = Inr b \<and>
           (\<forall>v < length (levels s'). \<forall>x. levels s' ! v = Some x \<longrightarrow> x \<le> b)"
proof -
  have inv: "trail_inv s" using assms(1) by (rule reachable_trail_inv)
  from assms(2) decision_level_eq[OF inv] have "d = top_level s" by simp
  with backjump_level[OF inv assms(3)] assms(4) obtain s' where
    s': "pop_queue_until b s = Inr s'" "trail_inv s'" "top_level s' = b"
    "\<forall>v < length (levels s'). \<forall>x. levels s' ! v = Some x \<longrightarrow> x \<le> b" by blast
  from decision_level_eq[OF s'(2)] s'(3) have "decision_level s' = Inr b" by simp
  with s' show ?thesis by blast
qed

theorem undo_until_level_witness:
  "reachable decided_state \<and> decision_level decided_state = Inr 1 \<and>
   (\<exists>s'. pop_queue_until 0 decided_state = Inr s' \<and> decision_level s' = Inr 0 \<and>
           (\<forall>v < length (levels s'). \<forall>x. levels s' ! v = Some x \<longrightarrow> x \<le> 0))"
proof -
  have d: "decision_level decided_state = Inr 1" unfolding decided_state_def by code_simp
  from undo_until_level[OF reachable_decided_state d, of 0] reachable_decided_state d
  show ?thesis by simp
qed

text \<open>
  C4, as the claim states it: \<^verbatim>\<open>pop_queue_until\<close> resets the propagation cursor to the
  new trail length. It does not: after \<open>add_clause {x0}\<close> on \<open>Solver 1\<close> the trail is
  \<open>[x0]\<close> at level 0; \<^verbatim>\<open>pop_queue_until(0)\<close> pops nothing, the trail keeps its length 1,
  and the cursor is set to 0.
\<close>

theorem pop_queue_until_cursor_counterexample:
  "ebind (add_clause [Lit 0 True] (Solver 1)) (pop_queue_until 0)
     = Inr \<lparr>assings = [True], status = None, clauses = [], learnts = [],
            watchers = [[], []], reasons = [None], levels = [Some 0],
            que = [Lit 0 True], que_head = 0, heap = []\<rparr> \<and>
   (0::nat) \<noteq> length [Lit 0 True]"
  by code_simp

text \<open>
  C4, amended: on a non-empty trail of a reachable state, \<^verbatim>\<open>pop_queue_until(u)\<close> returns
  and the trail keeps exactly the entries whose level does not exceed \<open>u\<close>; each popped
  variable loses its level and its reason, so that its literals evaluate to Undefine (the
  polarity bits \<^verbatim>\<open>assings\<close> are not touched); the entries that stay keep level and
  reason; the propagation cursor is set to the new trail length minus one (0 when the
  trail is emptied), so the last remaining literal is propagated again.
\<close>

theorem pop_queue_until_pops_above_level:
  assumes "reachable s" "que s \<noteq> []"
  shows "\<exists>s'. pop_queue_until u s = Inr s' \<and>
           que s' = filter (\<lambda>l. \<not> opt_gt (levels s ! vidx l) u) (que s) \<and>
           (\<forall>l \<in> set (que s). opt_gt (levels s ! vidx l) u \<longrightarrow>
              levels s' ! vidx l = None \<and> reasons s' ! vidx l = None \<and>
              eval_lit l s' = Inr LitBool_Undefine) \<and>
           (\<forall>l \<in> set (que s). \<not> opt_gt (levels s ! vidx l) u \<longrightarrow>
              levels s' ! vidx l = levels s ! vidx l \<and> reasons s' ! vidx l = reasons s ! vidx l) \<and>
           assings s' = assings s \<and> que_head s' = length (que s') - 1"
  using pop_exactly[OF reachable_trail_inv[OF assms(1)] assms(2)] .

theorem pop_queue_until_pops_above_level_witness:
  "reachable decided_state \<and> que decided_state = [Lit 0 False] \<and>
   (\<exists>s'. pop_queue_until 0 decided_state = Inr s' \<and> que s' = [] \<and>
      levels s' ! vidx (Lit 0 False) = None \<and> reasons s' ! vidx (Lit 0 False) = None \<and>
      eval_lit (Lit 0 False) s' = Inr LitBool_Undefine \<and>
      assings s' = assings decided_state \<and> que_head s' = 0)"
proof -
  have q: "que decided_state = [Lit 0 False]" unfolding decided_state_def by code_simp
  then have ne: "que decided_state \<noteq> []" by simp
  have g: "opt_gt (levels decided_state ! vidx (Lit 0 False)) 0"
    unfolding decided_state_def by code_simp
  from pop_queue_until_pops_above_level[OF reachable_decided_state ne, of 0]
  show ?thesis using reachable_decided_state q g by auto
qed

text \<open>
  C6, as the claim states it: assigning a literal and undoing to the prior decision level
  restores the prior state. It does not for \<^verbatim>\<open>enqueue\<close>: on \<open>Solver 1\<close> (empty trail,
  level 0), \<open>enqueue x0\<close> puts \<open>x0\<close> on the trail at level 0, and \<^verbatim>\<open>pop_queue_until(0)\<close>
  leaves it there.
\<close>

theorem enqueue_then_undo_counterexample:
  "decision_level (Solver 1) = Inr 0 \<and> que (Solver 1) = [] \<and>
   ebind (enqueue (Lit 0 True) None (Solver 1)) (pop_queue_until 0)
     = Inr \<lparr>assings = [True], status = None, clauses = [], learnts = [],
            watchers = [[], []], reasons = [None], levels = [Some 0],
            que = [Lit 0 True], que_head = 0, heap = []\<rparr>"
  by code_simp

text \<open>
  C6, amended: in a reachable state with decision level \<open>d\<close>, for a literal \<open>l\<close> of an
  unassigned variable, \<^verbatim>\<open>new_decision(l)\<close> followed by \<^verbatim>\<open>pop_queue_until(d)\<close> restores
  the trail and every level and reason, and every literal evaluates as before; the polarity
  bit of the variable of \<open>l\<close> keeps the polarity of \<open>l\<close>, and the propagation cursor is the
  trail length minus one instead of its prior value. After \<^verbatim>\<open>enqueue(l)\<close>, which assigns
  at level \<open>d\<close> itself, \<^verbatim>\<open>pop_queue_until(d)\<close> pops nothing and only moves the cursor.
\<close>

theorem decide_then_undo:
  assumes "reachable s" "vidx l < length (levels s)" "levels s ! vidx l = None"
    "decision_level s = Inr d"
  shows "ebind (new_decision l None s) (pop_queue_until d)
           = Inr (s\<lparr>assings := (assings s)[vidx l := pos l], que_head := length (que s) - 1\<rparr>) \<and>
         (\<forall>l'. eval_lit l' (s\<lparr>assings := (assings s)[vidx l := pos l],
                               que_head := length (que s) - 1\<rparr>) = eval_lit l' s) \<and>
         ebind (enqueue l None s) (pop_queue_until d)
           = ebind (enqueue l None s) (\<lambda>s1. Inr (s1\<lparr>que_head := length (que s)\<rparr>))"
proof -
  have inv: "trail_inv s" using assms(1) by (rule reachable_trail_inv)
  from assms(4) decision_level_eq[OF inv] have d: "d = top_level s" by simp
  have a: "ebind (new_decision l None s) (pop_queue_until d)
           = Inr (s\<lparr>assings := (assings s)[vidx l := pos l], que_head := length (que s) - 1\<rparr>)"
    unfolding d by (rule decide_undo[OF inv assms(2,3)])
  have b: "\<forall>l'. eval_lit l' (s\<lparr>assings := (assings s)[vidx l := pos l],
                               que_head := length (que s) - 1\<rparr>) = eval_lit l' s"
  proof
    fix l'
    show "eval_lit l' (s\<lparr>assings := (assings s)[vidx l := pos l],
                           que_head := length (que s) - 1\<rparr>) = eval_lit l' s"
    proof (cases "vidx l' = vidx l")
      case True
      with assms(3) show ?thesis by (simp add: eval_lit_def)
    next
      case False
      then have "(assings s)[vidx l := pos l] ! vidx l' = assings s ! vidx l'" by simp
      then show ?thesis by (simp add: eval_lit_def)
    qed
  qed
  have e: "enqueue l None s = Inr (assign l None (top_level s) s)"
    using assms(2,3) by (simp add: enqueue_Inr[OF inv])
  have "ebind (enqueue l None s) (pop_queue_until d)
           = Inr ((assign l None (top_level s) s)\<lparr>que_head := length (que s)\<rparr>)"
    unfolding d by (rule enqueue_undo[OF inv assms(2,3)])
  also have "\<dots> = ebind (enqueue l None s) (\<lambda>s1. Inr (s1\<lparr>que_head := length (que s)\<rparr>))"
    by (simp add: e)
  finally have c: "ebind (enqueue l None s) (pop_queue_until d)
           = ebind (enqueue l None s) (\<lambda>s1. Inr (s1\<lparr>que_head := length (que s)\<rparr>))" .
  from a b c show ?thesis by blast
qed

theorem decide_then_undo_witness:
  "reachable (Solver 1) \<and> levels (Solver 1) ! vidx (Lit 0 True) = None \<and>
   decision_level (Solver 1) = Inr 0 \<and>
   ebind (new_decision (Lit 0 True) None (Solver 1)) (pop_queue_until 0)
     = Inr ((Solver 1)\<lparr>assings := [True], que_head := 0\<rparr>) \<and>
   eval_lit (Lit 0 True) ((Solver 1)\<lparr>assings := [True], que_head := 0\<rparr>)
     = eval_lit (Lit 0 True) (Solver 1)"
proof -
  have r: "reachable (Solver 1)" by (rule reachable.init)
  have h: "vidx (Lit 0 True) < length (levels (Solver 1))"
    "levels (Solver 1) ! vidx (Lit 0 True) = None" "decision_level (Solver 1) = Inr 0"
    by code_simp+
  have v: "(assings (Solver 1))[vidx (Lit 0 True) := pos (Lit 0 True)] = [True]"
    "length (que (Solver 1)) - 1 = 0"
    by code_simp+
  from decide_then_undo[OF r h] r h show ?thesis unfolding v by simp
qed

section \<open>Boundary inputs of the interface\<close>

text \<open>
  C10: \<^verbatim>\<open>pop_queue_until\<close> has the precondition that the trail is not empty. On an
  empty trail its first statement, \<^verbatim>\<open>assert(!que.empty())\<close>, fails, whatever the target
  level is (0 included).
\<close>

theorem pop_queue_until_empty_trail:
  "que s = [] \<Longrightarrow> pop_queue_until until_level s = Inl (Assertion_failed ''!que.empty()'')"
  by (simp add: pop_queue_until_def)

theorem pop_queue_until_empty_trail_witness:
  "que (Solver 0) = [] \<and>
   pop_queue_until 0 (Solver 0) = Inl (Assertion_failed ''!que.empty()'')"
  using pop_queue_until_empty_trail [of "Solver 0" 0] by (simp add: Solver_def)

text \<open>
  C1: the formula \<open>{x0}, {!x0}\<close>. The first unit clause assigns \<open>x0\<close>; the second
  \<^verbatim>\<open>add_clause\<close> calls \<^verbatim>\<open>enqueue\<close> on the assigned variable and fails its
  assertion, so \<^verbatim>\<open>solve\<close> is never reached and no UNSAT is returned. Where the
  assertion is compiled out, the second literal overwrites the first one's value, no
  watcher list holds a clause, and \<^verbatim>\<open>solve\<close> returns SAT.
\<close>

theorem unit_and_negated_unit_fails_enqueue:
  "ebind (add_clause [Lit 0 True] (Solver 1)) (add_clause [Lit 0 False])
     = Inl (Assertion_failed ''!levels[lit.vidx()].has_value()'') \<and>
   ebind (add_clause [Lit 0 True] (Solver 1)) (enqueue_unchecked (Lit 0 False) None)
     = Inr contradictory_units_state \<and>
   solve contradictory_units_state
     = Some (Inr (Sat, contradictory_units_state\<lparr>que_head := 2\<rparr>))"
  unfolding contradictory_units_state_def by code_simp

text \<open>
  C2: the empty clause. \<^verbatim>\<open>add_clause\<close> sends every clause whose size is not 1 to
  \<^verbatim>\<open>attach_clause\<close>, which asserts \<^verbatim>\<open>clause.size() > 1\<close>: on the empty clause the
  call fails in every state, and the formula is not marked UNSAT.
\<close>

theorem add_empty_clause_fails:
  "add_clause [] s = Inl (Assertion_failed ''clause.size() > 1'')"
  by (simp add: add_clause_def make_shared_def attach_clause_def grow_def)

text \<open>
  C3: the growth of the variable space. \<^verbatim>\<open>add_clause\<close> calls \<^verbatim>\<open>new_var\<close> at most
  once for a literal, so the literal \<open>x5\<close> on a solver without variables leaves one
  variable slot; the unit assertion that follows indexes slot 5, outside every array.
\<close>

theorem add_clause_far_index_not_covered:
  "length (assings (grow [Lit 5 True] (Solver 0))) = 1 \<and>
   length (levels (grow [Lit 5 True] (Solver 0))) = 1 \<and>
   length (watchers (grow [Lit 5 True] (Solver 0))) = 2 \<and>
   add_clause [Lit 5 True] (Solver 0) = Inl Out_of_range"
  by code_simp

text \<open>
  C5: a conflicting clause that repeats a literal. After \<open>add_clause {x0, x0}\<close> on
  \<open>Solver 1\<close>, the first pass of \<open>solve\<close> decides \<open>!x0\<close> at level 1 and the next
  \<open>propagate\<close> returns the clause (handle 0), both of whose literals are False. The loop
  over the conflicting clause counts \<open>x0\<close> twice, so the walk does not stop at the
  decision \<open>!x0\<close> (the first UIP) and asks for its reason: \<open>analyze\<close> fails the
  assertion instead of returning the learnt clause \<open>{x0}\<close> and level 0. (Lemma
  \<open>analyze_returns\<close>: \<open>analyze\<close> returns for a conflicting clause without a repeated
  variable, in a state with the invariants of the trail and of the reasons where every
  trail entry of the current level but the first has a reason, \<open>reasons_at\<close>, and a
  literal of the clause is at that level; what it returns is as lemma \<open>analyze_result\<close>
  says.)
\<close>

theorem analyze_repeated_literal_fails:
  "ebind (add_clause [Lit 0 True, Lit 0 True] (Solver 1)) solve_step
     = Inr (None, repeated_literal_state) \<and>
   propagate repeated_literal_state
     = Inr (Some 0, repeated_literal_state\<lparr>que_head := 1\<rparr>) \<and>
   decision_level (repeated_literal_state\<lparr>que_head := 1\<rparr>) = Inr 1 \<and>
   map (\<lambda>l. eval_lit l (repeated_literal_state\<lparr>que_head := 1\<rparr>))
     (heap (repeated_literal_state\<lparr>que_head := 1\<rparr>) ! 0)
     = [Inr LitBool_False, Inr LitBool_False] \<and>
   analyze 0 (repeated_literal_state\<lparr>que_head := 1\<rparr>)
     = Inl (Assertion_failed ''reasons[lit.vidx()].has_value()'')"
  unfolding repeated_literal_state_def by code_simp

end
